theory Spec2Isabelle
  imports Complex_Main "HOL-Library.Word" "HOL-Library.Sublist"
begin

unbundle bit_operations_syntax

section \<open>The block builder (table/block\_builder.cc)\<close>

text \<open>
  A \<open>std::string\<close> or a \<open>Slice\<close> is a list of bytes; \<open>size()\<close> is the length of the
  list. Sizes of containers that live in memory are natural numbers (a \<open>size_t\<close> cannot
  wrap on them); every conversion of such a size to \<open>uint32_t\<close> is written out as
  \<open>of_nat\<close> into \<open>32 word\<close>, which truncates modulo \<open>2 ^ 32\<close> as the C++ conversion does.
\<close>

type_synonym byte = "8 word"
type_synonym bytes = "byte list"
type_synonym uint32_t = "32 word"

text \<open>
  Every \<open>assert\<close> of the source is a branch of the model that returns the error; the
  names follow the error taxonomy of the specification.
\<close>

datatype builder_error =
    RestartIntervalViolation
  | FinishedStateViolation
  | CounterInvariantViolation
  | OrderingViolation
  | LastKeyViolation

text \<open>
  The part of \<open>Options\<close> the builder reads: the restart interval (an \<open>int\<close>) and the
  three-way comparator \<open>Compare(a, b)\<close>, negative, zero or positive.
\<close>

record Options =
  block_restart_interval :: int
  comparator :: "bytes \<Rightarrow> bytes \<Rightarrow> int"

record BlockBuilder =
  options :: Options
  buffer :: bytes
  restarts :: "uint32_t list"
  counter :: int
  finished :: bool
  last_key :: bytes

subsection \<open>The coding helpers (util/coding.cc is not among the sources)\<close>

text \<open>
  Modelled from the spec: \<open>PutVarint32\<close> of util/coding.cc, which is not under src/.
  The specification: "Variable-length integers use the standard base-128 continuation-bit
  encoding (LSB-first groups, high bit set on all but the last byte) -- at most 5 bytes for
  a 32-bit value."
\<close>

fun varint_groups :: "nat \<Rightarrow> bytes" where
  "varint_groups n =
     (if n < 128 then [of_nat n]
      else of_nat (n mod 128 + 128) # varint_groups (n div 128))"

declare varint_groups.simps [simp del]

definition PutVarint32 :: "uint32_t \<Rightarrow> bytes" where
  "PutVarint32 v = varint_groups (unat v)"

text \<open>
  Modelled from the spec: \<open>PutFixed32\<close> of util/coding.cc, which is not under src/.
  The specification: "a fixed 4-byte little-endian unsigned integer".
\<close>

definition PutFixed32 :: "uint32_t \<Rightarrow> bytes" where
  "PutFixed32 v =
     [of_nat (unat v mod 256), of_nat (unat v div 256 mod 256),
      of_nat (unat v div 65536 mod 256), of_nat (unat v div 16777216 mod 256)]"

subsection \<open>Constructor, Reset, CurrentSizeEstimate, Finish\<close>

definition BlockBuilder_init :: "Options \<Rightarrow> BlockBuilder" where
  "BlockBuilder_init opts =
     \<lparr>options = opts, buffer = [], restarts = [0], counter = 0,
      finished = False, last_key = []\<rparr>"

definition BlockBuilder_new :: "Options \<Rightarrow> builder_error + BlockBuilder" where
  "BlockBuilder_new opts =
     (if \<not> block_restart_interval opts \<ge> 1 then Inl RestartIntervalViolation
      else Inr (BlockBuilder_init opts))"

definition Reset :: "BlockBuilder \<Rightarrow> BlockBuilder" where
  "Reset b =
     b\<lparr>buffer := [], restarts := [0], counter := 0, finished := False,
       last_key := []\<rparr>"

definition CurrentSizeEstimate :: "BlockBuilder \<Rightarrow> nat" where
  "CurrentSizeEstimate b = length (buffer b) + length (restarts b) * 4 + 4"

text \<open>
  \<open>Finish\<close>: the loop over \<open>restarts\<close> appends each offset, then the count (a
  \<open>size_t\<close> converted to \<open>uint32_t\<close>) is appended. The result is the view of the buffer
  together with the updated builder. Nothing in it reads \<open>finished\<close>. The index of the
  loop is an \<open>int\<close>; the fold runs over the whole array, as the loop does for every array
  of at most \<open>2 ^ 31 - 1\<close> offsets.
\<close>

definition Finish :: "BlockBuilder \<Rightarrow> bytes \<times> BlockBuilder" where
  "Finish b =
     (let buf1 = foldl (\<lambda>buf r. buf @ PutFixed32 r) (buffer b) (restarts b);
          buf2 = buf1 @ PutFixed32 (of_nat (length (restarts b)));
          b' = b\<lparr>buffer := buf2, finished := True\<rparr>
      in (buffer b', b'))"

subsection \<open>Add\<close>

text \<open>
  \<open>counter_\<close> is an \<open>int\<close> that \<open>Add\<close> keeps between 0 and the restart interval, itself an
  \<open>int\<close>, so it is modelled by an unbounded integer. First the \<open>while\<close> loop of \<open>Add\<close>
  that counts the bytes shared with the previous key.
\<close>

function shared_loop :: "bytes \<Rightarrow> bytes \<Rightarrow> nat \<Rightarrow> nat \<Rightarrow> nat" where
  "shared_loop last_key_piece key min_length shared =
     (if shared < min_length \<and> last_key_piece ! shared = key ! shared
      then shared_loop last_key_piece key min_length (shared + 1)
      else shared)"
  by pat_completeness auto
termination
  by (relation "measure (\<lambda>(last_key_piece, key, min_length, shared). min_length - shared)") auto

declare shared_loop.simps [simp del]

text \<open>\<open>std::string::resize(n)\<close>: cut to \<open>n\<close> bytes, or pad with zero bytes.\<close>

definition resize :: "nat \<Rightarrow> bytes \<Rightarrow> bytes" where
  "resize n s = take n s @ replicate (n - length s) 0"

definition Add :: "bytes \<Rightarrow> bytes \<Rightarrow> BlockBuilder \<Rightarrow> builder_error + BlockBuilder" where
  "Add key val b =
     (let interval = block_restart_interval (options b) in
      if finished b then Inl FinishedStateViolation
      else if \<not> counter b \<le> interval then Inl CounterInvariantViolation
      else if \<not> (buffer b = [] \<or> comparator (options b) key (last_key b) > 0)
        then Inl OrderingViolation
      else
        let (shared, b1) =
              (if counter b < interval
               then (shared_loop (last_key b) key (min (length (last_key b)) (length key)) 0, b)
               else (0, b\<lparr>restarts := restarts b @ [of_nat (length (buffer b))],
                          counter := 0\<rparr>));
            non_shared = length key - shared;
            buf = buffer b1 @ PutVarint32 (of_nat shared) @ PutVarint32 (of_nat non_shared)
                    @ PutVarint32 (of_nat (length val))
                    @ take non_shared (drop shared key) @ val;
            last_key' = resize shared (last_key b1) @ take non_shared (drop shared key)
        in if last_key' \<noteq> key then Inl LastKeyViolation
           else Inr (b1\<lparr>buffer := buf, last_key := last_key', counter := counter b1 + 1\<rparr>))"

text \<open>A caller's run: \<open>Add\<close> for each pair in turn, stopping at the first failed assertion.\<close>

fun Add_all :: "(bytes \<times> bytes) list \<Rightarrow> BlockBuilder \<Rightarrow> builder_error + BlockBuilder" where
  "Add_all [] b = Inr b"
| "Add_all ((key, val) # kvs) b =
     (case Add key val b of Inl e \<Rightarrow> Inl e | Inr b' \<Rightarrow> Add_all kvs b')"

text \<open>The trailer that one call of \<open>Finish\<close> appends for a given restart array.\<close>

definition trailer :: "uint32_t list \<Rightarrow> bytes" where
  "trailer rs = concat (map PutFixed32 rs) @ PutFixed32 (of_nat (length rs))"

subsection \<open>What the properties speak about\<close>

text \<open>
  The bytes of one entry in the block format of the specification: the three varint32
  fields, the unshared key bytes and the value.
\<close>

definition entry_bytes :: "nat \<Rightarrow> bytes \<Rightarrow> bytes \<Rightarrow> bytes" where
  "entry_bytes shared key val =
     PutVarint32 (of_nat shared) @ PutVarint32 (of_nat (length key - shared))
       @ PutVarint32 (of_nat (length val)) @ drop shared key @ val"

definition shared_for :: "BlockBuilder \<Rightarrow> bytes \<Rightarrow> nat" where
  "shared_for b key =
     (if counter b < block_restart_interval (options b)
      then length (longest_common_prefix (last_key b) key) else 0)"

text \<open>
  The assertions on the builder's own state that \<open>Add\<close> makes before it looks at the
  key: not finished, and the counter within the restart interval.
\<close>

definition builder_ok :: "BlockBuilder \<Rightarrow> bool" where
  "builder_ok b \<longleftrightarrow>
     \<not> finished b \<and> 0 \<le> counter b \<and> counter b \<le> block_restart_interval (options b)"

text \<open>
  A key sequence is strictly increasing when every key compares greater than the one
  before it under the configured comparator.
\<close>

definition keys_increasing :: "Options \<Rightarrow> (bytes \<times> bytes) list \<Rightarrow> bool" where
  "keys_increasing opts kvs \<longleftrightarrow>
     successively (\<lambda>k1 k2. comparator opts k2 k1 > 0) (map fst kvs)"

text \<open>
  An instance of the comparator for concrete runs: byte-wise lexicographic order on
  unsigned bytes, a proper prefix being smaller.
\<close>

fun bytewise_compare :: "bytes \<Rightarrow> bytes \<Rightarrow> int" where
  "bytewise_compare [] [] = 0"
| "bytewise_compare [] (y # ys) = - 1"
| "bytewise_compare (x # xs) [] = 1"
| "bytewise_compare (x # xs) (y # ys) =
     (if x < y then - 1 else if y < x then 1 else bytewise_compare xs ys)"

subsection \<open>A reader of the block format\<close>

text \<open>
  Modelled from the spec: the reader of a block, which is not under src/. It follows the
  block format of the specification (section 6): entries of three varint32 fields,
  \<open>key_delta\<close> and value, then the restart offsets and their count as fixed 32-bit
  little-endian integers. It is written independently of \<open>Add\<close> and \<open>Finish\<close>: it
  reads the restart count from the last four bytes, takes the bytes before the restart
  array as the entries, and rebuilds each key from the key before it.
\<close>

fun varint_value :: "bytes \<Rightarrow> (nat \<times> bytes) option" where
  "varint_value [] = None"
| "varint_value (c # cs) =
     (if unat c < 128 then Some (unat c, cs)
      else case varint_value cs of
             None \<Rightarrow> None
           | Some (n, rest) \<Rightarrow> Some (unat c - 128 + 128 * n, rest))"

definition GetVarint32 :: "bytes \<Rightarrow> (nat \<times> bytes) option" where
  "GetVarint32 bs =
     (case varint_value bs of
        None \<Rightarrow> None
      | Some (n, rest) \<Rightarrow> if n < 2 ^ 32 then Some (n, rest) else None)"

definition DecodeFixed32 :: "bytes \<Rightarrow> nat" where
  "DecodeFixed32 bs =
     unat (bs ! 0) + 256 * unat (bs ! 1) + 65536 * unat (bs ! 2) + 16777216 * unat (bs ! 3)"

record entry =
  shared_bytes :: nat
  unshared_bytes :: nat
  value_length :: nat
  key_delta :: bytes
  value_bytes :: bytes

lemma varint_value_length: "varint_value bs = Some (n, rest) \<Longrightarrow> length rest < length bs"
  by (induction bs arbitrary: n rest) (auto split: if_splits option.splits)

lemma GetVarint32_length: "GetVarint32 bs = Some (n, rest) \<Longrightarrow> length rest < length bs"
  by (auto simp: GetVarint32_def split: option.splits if_splits dest: varint_value_length)

function parse_entries :: "bytes \<Rightarrow> entry list option" where
  "parse_entries bs =
     (if bs = [] then Some []
      else case GetVarint32 bs of
        None \<Rightarrow> None
      | Some (shared, r1) \<Rightarrow>
         (case GetVarint32 r1 of
            None \<Rightarrow> None
          | Some (non_shared, r2) \<Rightarrow>
             (case GetVarint32 r2 of
                None \<Rightarrow> None
              | Some (vlen, r3) \<Rightarrow>
                  if length r3 < non_shared + vlen then None
                  else (case parse_entries (drop (non_shared + vlen) r3) of
                          None \<Rightarrow> None
                        | Some es \<Rightarrow>
                            Some (\<lparr>shared_bytes = shared, unshared_bytes = non_shared,
                                   value_length = vlen, key_delta = take non_shared r3,
                                   value_bytes = take vlen (drop non_shared r3)\<rparr> # es)))))"
  by pat_completeness auto
termination
proof (relation "measure length")
  show "wf (measure length)" by simp
next
  fix bs :: bytes and x2 x y x2a xa ya x2b xb yb
  assume "GetVarint32 bs = Some x2" "(x, y) = x2" "GetVarint32 y = Some x2a" "(xa, ya) = x2a"
    "GetVarint32 ya = Some x2b" "(xb, yb) = x2b"
  then have "length y < length bs" "length ya < length y" "length yb < length ya"
    by (auto dest: GetVarint32_length)
  then show "(drop (xa + xb) yb, bs) \<in> measure length" by simp
qed

declare parse_entries.simps [simp del]

fun rebuild_keys :: "bytes \<Rightarrow> entry list \<Rightarrow> (bytes \<times> bytes) list option" where
  "rebuild_keys prev [] = Some []"
| "rebuild_keys prev (e # es) =
     (if length prev < shared_bytes e then None
      else let key = take (shared_bytes e) prev @ key_delta e in
           case rebuild_keys key es of
             None \<Rightarrow> None
           | Some kvs \<Rightarrow> Some ((key, value_bytes e) # kvs))"

definition decode_block :: "bytes \<Rightarrow> (bytes \<times> bytes) list option" where
  "decode_block bs =
     (if length bs < 4 then None
      else let num_restarts = DecodeFixed32 (drop (length bs - 4) bs) in
           if length bs < 4 * num_restarts + 4 then None
           else case parse_entries (take (length bs - (4 * num_restarts + 4)) bs) of
                  None \<Rightarrow> None
                | Some es \<Rightarrow> rebuild_keys [] es)"

text \<open>
  The restart array is in order: strictly increasing, every offset inside the buffer, and
  strictly inside it once an entry follows the last restart.
\<close>

definition restarts_ok :: "BlockBuilder \<Rightarrow> bool" where
  "restarts_ok b \<longleftrightarrow>
     sorted_wrt (<) (restarts b) \<and>
     (\<forall>r \<in> set (restarts b). unat r \<le> length (buffer b)) \<and>
     (0 < counter b \<longrightarrow> (\<forall>r \<in> set (restarts b). unat r < length (buffer b)))"

text \<open>
  The \<open>shared_bytes\<close> field of the entry that lies between the end of the buffer of
  \<open>b\<close> and the end of the buffer of \<open>b'\<close>, as the reader decodes it.
\<close>

definition encoded_shared :: "BlockBuilder \<Rightarrow> BlockBuilder \<Rightarrow> nat option" where
  "encoded_shared b b' = map_option fst (GetVarint32 (drop (length (buffer b)) (buffer b')))"

text \<open>Two configurations for concrete runs.\<close>

definition example_options :: Options where
  "example_options = \<lparr>block_restart_interval = 2, comparator = bytewise_compare\<rparr>"

definition restart_every_entry :: Options where
  "restart_every_entry = \<lparr>block_restart_interval = 1, comparator = bytewise_compare\<rparr>"

section \<open>The arena (util/arena.cc)\<close>

text \<open>
  The model is of a 64-bit platform: \<open>size_t\<close>, \<open>uintptr_t\<close> and the numeric value of a
  \<open>char*\<close> are 64-bit words, whose arithmetic wraps as the unsigned arithmetic of C++
  does, and \<open>sizeof(void*)\<close> is 8. \<open>NULL\<close> is the address 0.
\<close>

type_synonym size_t = "64 word"
type_synonym address = "64 word"

text \<open>
  \<open>BadAlloc\<close> is the exception of \<open>new char[n]\<close>; the other two errors are the two
  assertions of \<open>AllocateAligned\<close>.
\<close>

datatype arena_error = BadAlloc | PointerSizeViolation | AlignmentInvariantViolation

text \<open>
  The fields of \<open>Arena\<close>. \<open>blocks_\<close> is a vector of the addresses of the arrays; the
  model keeps with each address the length that \<open>new char[n]\<close> was given, which the
  properties of byte ranges need.
\<close>

record Arena =
  alloc_ptr :: address
  alloc_bytes_remaining :: size_t
  blocks :: "(address \<times> size_t) list"
  blocks_memory :: size_t

text \<open>
  \<open>new char[n]\<close> belongs to the environment. It is a parameter \<open>new_char\<close> of every
  operation: from the blocks the arena holds and the length asked for it gives the address
  of the new array, or \<open>None\<close> where it throws. The block list only grows and differs at
  every call, so any behaviour of the allocator along a run is such a function.
\<close>

type_synonym allocator = "(address \<times> size_t) list \<Rightarrow> size_t \<Rightarrow> address option"

definition kBlockSize :: int where
  "kBlockSize = 4096"

definition pointer_size :: int where
  "pointer_size = 8"

definition Arena_init :: Arena where
  "Arena_init = \<lparr>alloc_ptr = 0, alloc_bytes_remaining = 0, blocks = [], blocks_memory = 0\<rparr>"

definition AllocateNewBlock :: "allocator \<Rightarrow> size_t \<Rightarrow> Arena \<Rightarrow> arena_error + (address \<times> Arena)" where
  "AllocateNewBlock new_char block_bytes a =
     (case new_char (blocks a) block_bytes of
        None \<Rightarrow> Inl BadAlloc
      | Some result \<Rightarrow>
          Inr (result, a\<lparr>blocks_memory := blocks_memory a + block_bytes,
                          blocks := blocks a @ [(result, block_bytes)]\<rparr>))"

definition AllocateFallback :: "allocator \<Rightarrow> size_t \<Rightarrow> Arena \<Rightarrow> arena_error + (address \<times> Arena)" where
  "AllocateFallback new_char bytes a =
     (if bytes > of_int (kBlockSize div 4) then AllocateNewBlock new_char bytes a
      else case AllocateNewBlock new_char (of_int kBlockSize) a of
             Inl e \<Rightarrow> Inl e
           | Inr (p, a1) \<Rightarrow>
               let a2 = a1\<lparr>alloc_ptr := p, alloc_bytes_remaining := of_int kBlockSize\<rparr>;
                   result = alloc_ptr a2
               in Inr (result, a2\<lparr>alloc_ptr := alloc_ptr a2 + bytes,
                                   alloc_bytes_remaining := alloc_bytes_remaining a2 - bytes\<rparr>))"

definition AllocateAligned :: "allocator \<Rightarrow> size_t \<Rightarrow> Arena \<Rightarrow> arena_error + (address \<times> Arena)" where
  "AllocateAligned new_char bytes a =
     (let align = (of_int pointer_size :: 64 word) in
      if align AND (align - 1) \<noteq> 0 then Inl PointerSizeViolation
      else
        let current_mod = alloc_ptr a AND (align - 1);
            slop = (if current_mod = 0 then 0 else align - current_mod);
            needed = bytes + slop
        in case (if needed \<le> alloc_bytes_remaining a
                 then Inr (alloc_ptr a + slop,
                           a\<lparr>alloc_ptr := alloc_ptr a + needed,
                             alloc_bytes_remaining := alloc_bytes_remaining a - needed\<rparr>)
                 else AllocateFallback new_char bytes a) of
             Inl e \<Rightarrow> Inl e
           | Inr (result, a') \<Rightarrow>
               if result AND (align - 1) \<noteq> 0 then Inl AlignmentInvariantViolation
               else Inr (result, a'))"

text \<open>
  Modelled from the spec: \<open>Arena::Allocate\<close>, which is inline in util/arena.h and not under
  src/. The specification: "Fast path: if the active block has at least n bytes remaining,
  carve n bytes from the cursor, advance cursor, decrement remaining, return", otherwise
  the fallback.
\<close>

definition Allocate :: "allocator \<Rightarrow> size_t \<Rightarrow> Arena \<Rightarrow> arena_error + (address \<times> Arena)" where
  "Allocate new_char bytes a =
     (if bytes \<le> alloc_bytes_remaining a
      then Inr (alloc_ptr a,
                a\<lparr>alloc_ptr := alloc_ptr a + bytes,
                  alloc_bytes_remaining := alloc_bytes_remaining a - bytes\<rparr>)
      else AllocateFallback new_char bytes a)"

subsection \<open>Sequences of calls\<close>

text \<open>
  A caller's run: a list of requests served in turn, stopping at the first failure. The
  result lists the byte ranges returned, each the address together with the number of
  bytes asked for.
\<close>

datatype request = ReqAllocate size_t | ReqAllocateAligned size_t

fun request_bytes :: "request \<Rightarrow> size_t" where
  "request_bytes (ReqAllocate n) = n"
| "request_bytes (ReqAllocateAligned n) = n"

fun is_aligned_request :: "request \<Rightarrow> bool" where
  "is_aligned_request (ReqAllocate n) = False"
| "is_aligned_request (ReqAllocateAligned n) = True"

fun serve :: "allocator \<Rightarrow> request \<Rightarrow> Arena \<Rightarrow> arena_error + (address \<times> Arena)" where
  "serve new_char (ReqAllocate n) a = Allocate new_char n a"
| "serve new_char (ReqAllocateAligned n) a = AllocateAligned new_char n a"

fun run :: "allocator \<Rightarrow> request list \<Rightarrow> Arena \<Rightarrow> arena_error + ((address \<times> size_t) list \<times> Arena)" where
  "run new_char [] a = Inr ([], a)"
| "run new_char (r # rs) a =
     (case serve new_char r a of
        Inl e \<Rightarrow> Inl e
      | Inr (p, a1) \<Rightarrow>
          (case run new_char rs a1 of
             Inl e \<Rightarrow> Inl e
           | Inr (ps, a2) \<Rightarrow> Inr ((p, request_bytes r) # ps, a2)))"

subsection \<open>Byte ranges and the allocator's contract\<close>

text \<open>
  A range is an address and a length. The byte at \<open>x\<close> belongs to the range \<open>(p, n)\<close> when
  \<open>x = p + i\<close> for some \<open>i < n\<close> in address arithmetic; two ranges overlap when they have
  a byte in common.
\<close>

type_synonym range = "address \<times> size_t"

definition in_range :: "address \<Rightarrow> range \<Rightarrow> bool" where
  "in_range x r \<longleftrightarrow> unat (x - fst r) < unat (snd r)"

definition ranges_overlap :: "range \<Rightarrow> range \<Rightarrow> bool" where
  "ranges_overlap r1 r2 \<longleftrightarrow> (\<exists>x. in_range x r1 \<and> in_range x r2)"

text \<open>
  The same on the numeric values of the addresses, for ranges that do not wrap: one range
  ends before the other begins (or one is empty), and one range lies inside another.
\<close>

definition separate :: "range \<Rightarrow> range \<Rightarrow> bool" where
  "separate r1 r2 \<longleftrightarrow>
     snd r1 = 0 \<or> snd r2 = 0 \<or>
     unat (fst r1) + unat (snd r1) \<le> unat (fst r2) \<or>
     unat (fst r2) + unat (snd r2) \<le> unat (fst r1)"

definition inside :: "range \<Rightarrow> range \<Rightarrow> bool" where
  "inside r b \<longleftrightarrow>
     unat (fst b) \<le> unat (fst r) \<and> unat (fst r) + unat (snd r) \<le> unat (fst b) + unat (snd b)"

text \<open>
  What the arena relies on from \<open>new char[n]\<close>: the array does not run past the end of
  the address space and shares no byte with a block the arena still holds; and, for
  \<open>AllocateAligned\<close> (the comment in the source: memory from \<open>new\<close> is aligned as memory
  from \<open>malloc\<close> is), its address is a multiple of the pointer size.
\<close>

definition new_ok :: "allocator \<Rightarrow> bool" where
  "new_ok new_char \<longleftrightarrow>
     (\<forall>bs n p. new_char bs n = Some p \<longrightarrow>
        unat p + unat n < 2 ^ 64 \<and> (\<forall>b \<in> set bs. separate (p, n) b))"

definition new_aligned :: "allocator \<Rightarrow> bool" where
  "new_aligned new_char \<longleftrightarrow>
     (\<forall>bs n p. new_char bs n = Some p \<longrightarrow> unat p mod nat pointer_size = 0)"

text \<open>
  A request whose size plus the largest alignment padding (7 bytes) still fits a
  \<open>size_t\<close>: for it \<open>bytes + slop\<close> in \<open>AllocateAligned\<close> does not wrap.
\<close>

fun no_wrap :: "request \<Rightarrow> bool" where
  "no_wrap (ReqAllocate n) = True"
| "no_wrap (ReqAllocateAligned n) = (unat n + 7 < 2 ^ 64)"

text \<open>
  The padding \<open>slop\<close> that \<open>AllocateAligned\<close> computes in a state, and whether a request is
  served from the active block (the fast path) in a state.
\<close>

definition alignment_slop :: "Arena \<Rightarrow> size_t" where
  "alignment_slop a = (if alloc_ptr a AND 7 = 0 then 0 else 8 - (alloc_ptr a AND 7))"

fun fits :: "request \<Rightarrow> Arena \<Rightarrow> bool" where
  "fits (ReqAllocate n) a \<longleftrightarrow> n \<le> alloc_bytes_remaining a"
| "fits (ReqAllocateAligned n) a \<longleftrightarrow> n + alignment_slop a \<le> alloc_bytes_remaining a"

text \<open>
  The invariant of an arena together with the ranges it has returned: no block runs past
  the end of the address space; the free part of the active block lies in a block; every
  range returned lies in a block, shares no byte with the free part, and the ranges are
  pairwise separate.
\<close>

definition arena_inv :: "Arena \<Rightarrow> range list \<Rightarrow> bool" where
  "arena_inv a rs \<longleftrightarrow>
     (\<forall>b \<in> set (blocks a). unat (fst b) + unat (snd b) < 2 ^ 64) \<and>
     (alloc_bytes_remaining a = 0 \<or>
      (\<exists>b \<in> set (blocks a). inside (alloc_ptr a, alloc_bytes_remaining a) b)) \<and>
     (\<forall>r \<in> set rs. snd r = 0 \<or> (\<exists>b \<in> set (blocks a). inside r b)) \<and>
     (\<forall>r \<in> set rs. separate r (alloc_ptr a, alloc_bytes_remaining a)) \<and>
     sorted_wrt separate rs"

text \<open>
  The ranges of a run that the properties follow: the range returned to a request whose
  \<open>bytes + slop\<close> cannot wrap, and an empty range at the same address in place of the
  range returned to a request that can.
\<close>

definition tracked :: "request list \<Rightarrow> range list \<Rightarrow> range list" where
  "tracked reqs ps = map (\<lambda>(r, pr). (fst pr, if no_wrap r then snd pr else 0)) (zip reqs ps)"

text \<open>
  The active block of an arena: a block of 4096 bytes that the cursor points into (or to
  the end of) and whose end is the end of the free part. The cursor of an arena is either
  as the constructor left it, null with nothing remaining, or in an active block.
\<close>

definition active_block :: "Arena \<Rightarrow> range \<Rightarrow> bool" where
  "active_block a b \<longleftrightarrow>
     b \<in> set (blocks a) \<and> snd b = 4096 \<and> unat (fst b) + 4096 < 2 ^ 64 \<and>
     unat (fst b) \<le> unat (alloc_ptr a) \<and>
     unat (alloc_ptr a) + unat (alloc_bytes_remaining a) = unat (fst b) + 4096"

definition cursor_inv :: "Arena \<Rightarrow> bool" where
  "cursor_inv a \<longleftrightarrow>
     (alloc_ptr a = 0 \<and> alloc_bytes_remaining a = 0) \<or> (\<exists>b. active_block a b)"

text \<open>
  An allocator for concrete runs: every new array is placed above all blocks held, at the
  next multiple of 16, starting at address 65536.
\<close>

definition example_new :: allocator where
  "example_new bs n =
     (let top = foldr (\<lambda>b t. max (unat (fst b) + unat (snd b)) t) bs 65536;
          base = 16 * ((top + 15) div 16)
      in if base + unat n < 2 ^ 64 then Some (of_nat base) else None)"

section \<open>Properties of the block builder\<close>

lemma foldl_PutFixed32: "foldl (\<lambda>buf r. buf @ PutFixed32 r) buf rs = buf @ concat (map PutFixed32 rs)"
  by (induction rs arbitrary: buf) simp_all

lemma Finish_buffer: "fst (Finish b) = buffer b @ trailer (restarts b)"
  by (simp add: Finish_def Let_def foldl_PutFixed32 trailer_def)

lemma Finish_state:
  "snd (Finish b) = b\<lparr>buffer := buffer b @ trailer (restarts b), finished := True\<rparr>"
  by (simp add: Finish_def Let_def foldl_PutFixed32 trailer_def)

lemma shared_loop_drop:
  "shared \<le> min_length \<Longrightarrow> min_length = min (length a) (length k) \<Longrightarrow>
   shared_loop a k min_length shared = shared + length (longest_common_prefix (drop shared a) (drop shared k))"
proof (induction a k min_length shared rule: shared_loop.induct)
  case (1 a k m i)
  show ?case
  proof (cases "i < m \<and> a ! i = k ! i")
    case True
    then have "i < length a" "i < length k" using "1.prems" by simp_all
    then have da: "drop i a = a ! i # drop (Suc i) a" and dk: "drop i k = k ! i # drop (Suc i) k"
      by (simp_all add: Cons_nth_drop_Suc)
    from True "1.prems" have "shared_loop a k m (i + 1) = (i + 1) + length (longest_common_prefix (drop (i + 1) a) (drop (i + 1) k))"
      by (intro "1.IH") simp_all
    then show ?thesis using True
      by (subst shared_loop.simps) (simp add: da dk)
  next
    case False
    show ?thesis
    proof (cases "i < m")
      case True
      then have "i < length a" "i < length k" using "1.prems" by simp_all
      then have da: "drop i a = a ! i # drop (Suc i) a" and dk: "drop i k = k ! i # drop (Suc i) k"
        by (simp_all add: Cons_nth_drop_Suc)
      with False True show ?thesis
        by (subst shared_loop.simps) (simp add: da dk)
    next
      case F2: False
      then have "drop i a = [] \<or> drop i k = []" using "1.prems" by auto
      then show ?thesis using F2
        by (subst shared_loop.simps) auto
    qed
  qed
qed

lemma shared_loop_lcp:
  "shared_loop a k (min (length a) (length k)) 0 = length (longest_common_prefix a k)"
  using shared_loop_drop [of 0 "min (length a) (length k)" a k] by simp

lemma prefix_take: "prefix p xs \<Longrightarrow> take (length p) xs = p"
  by (auto simp: prefix_def)

lemma lcp_take1: "take (length (longest_common_prefix a k)) a = longest_common_prefix a k"
  by (rule prefix_take) (rule longest_common_prefix_prefix1)

lemma lcp_take2: "take (length (longest_common_prefix a k)) k = longest_common_prefix a k"
  by (rule prefix_take) (rule longest_common_prefix_prefix2)

lemma lcp_le1: "length (longest_common_prefix a k) \<le> length a"
  using longest_common_prefix_prefix1 [of a k] by (rule prefix_length_le)

lemma lcp_le2: "length (longest_common_prefix a k) \<le> length k"
  using longest_common_prefix_prefix2 [of a k] by (rule prefix_length_le)

lemma resize_lcp:
  "resize (length (longest_common_prefix a k)) a @ drop (length (longest_common_prefix a k)) k = k"
proof -
  have "resize (length (longest_common_prefix a k)) a = take (length (longest_common_prefix a k)) k"
    by (simp add: resize_def lcp_le1 lcp_take1 lcp_take2)
  then show ?thesis by simp
qed

lemma Add_success:
  assumes "\<not> finished b" and "counter b \<le> block_restart_interval (options b)"
    and "buffer b = [] \<or> comparator (options b) key (last_key b) > 0"
  shows "\<exists>b'. Add key val b = Inr b' \<and>
           options b' = options b \<and>
           buffer b' = buffer b @ entry_bytes (shared_for b key) key val \<and>
           restarts b' = (if counter b < block_restart_interval (options b) then restarts b
                          else restarts b @ [of_nat (length (buffer b))]) \<and>
           counter b' = (if counter b < block_restart_interval (options b) then counter b + 1 else 1) \<and>
           \<not> finished b' \<and> last_key b' = key"
proof (cases "counter b < block_restart_interval (options b)")
  case True
  with assms show ?thesis
    by (simp add: Add_def Let_def shared_loop_lcp resize_lcp entry_bytes_def shared_for_def lcp_le2)
next
  case False
  with assms show ?thesis
    by (simp add: Add_def Let_def resize_def entry_bytes_def shared_for_def)
qed

lemma Add_Inr_iff:
  "(\<exists>b'. Add key val b = Inr b') \<longleftrightarrow>
     (\<not> finished b \<and> counter b \<le> block_restart_interval (options b) \<and>
      (buffer b = [] \<or> comparator (options b) key (last_key b) > 0))"
proof
  assume "\<exists>b'. Add key val b = Inr b'"
  then show "\<not> finished b \<and> counter b \<le> block_restart_interval (options b) \<and>
      (buffer b = [] \<or> comparator (options b) key (last_key b) > 0)"
    by (auto simp: Add_def Let_def split: if_splits)
next
  assume "\<not> finished b \<and> counter b \<le> block_restart_interval (options b) \<and>
      (buffer b = [] \<or> comparator (options b) key (last_key b) > 0)"
  then show "\<exists>b'. Add key val b = Inr b'"
    using Add_success [of b key val] by blast
qed

lemma BlockBuilder_new_Inr:
  "BlockBuilder_new opts = Inr b \<longleftrightarrow> 1 \<le> block_restart_interval opts \<and> b = BlockBuilder_init opts"
  by (auto simp: BlockBuilder_new_def)

lemma Reset_init: "Reset b = BlockBuilder_init (options b)"
  by (simp add: Reset_def BlockBuilder_init_def)

lemma builder_ok_init: "1 \<le> block_restart_interval opts \<Longrightarrow> builder_ok (BlockBuilder_init opts)"
  by (simp add: builder_ok_def BlockBuilder_init_def)

lemma Add_InrD:
  assumes "Add key val b = Inr b'"
  shows "\<not> finished b" and "counter b \<le> block_restart_interval (options b)"
    and "buffer b = [] \<or> comparator (options b) key (last_key b) > 0"
    and "options b' = options b"
    and "buffer b' = buffer b @ entry_bytes (shared_for b key) key val"
    and "restarts b' = (if counter b < block_restart_interval (options b) then restarts b
                          else restarts b @ [of_nat (length (buffer b))])"
    and "counter b' = (if counter b < block_restart_interval (options b) then counter b + 1 else 1)"
    and "\<not> finished b'" and "last_key b' = key"
proof -
  from assms have pre: "\<not> finished b \<and> counter b \<le> block_restart_interval (options b) \<and>
      (buffer b = [] \<or> comparator (options b) key (last_key b) > 0)"
    using Add_Inr_iff [of key val b] by blast
  then show "\<not> finished b" "counter b \<le> block_restart_interval (options b)"
    "buffer b = [] \<or> comparator (options b) key (last_key b) > 0" by simp_all
  from pre Add_success [of b key val] assms
  show "options b' = options b"
    "buffer b' = buffer b @ entry_bytes (shared_for b key) key val"
    "restarts b' = (if counter b < block_restart_interval (options b) then restarts b
                          else restarts b @ [of_nat (length (buffer b))])"
    "counter b' = (if counter b < block_restart_interval (options b) then counter b + 1 else 1)"
    "\<not> finished b'" "last_key b' = key"
    by auto
qed

lemma varint_groups_nonempty: "varint_groups n \<noteq> []"
  by (subst varint_groups.simps) simp

lemma entry_bytes_nonempty: "entry_bytes sh key val \<noteq> []"
  by (simp add: entry_bytes_def PutVarint32_def varint_groups_nonempty)

lemma Add_builder_ok:
  assumes "Add key val b = Inr b'" and "builder_ok b" and "1 \<le> block_restart_interval (options b)"
  shows "builder_ok b'"
  using Add_InrD [OF assms(1)] assms(2,3) by (auto simp: builder_ok_def)

lemma Add_all_builder_ok:
  "Add_all kvs b = Inr b' \<Longrightarrow> builder_ok b \<Longrightarrow> 1 \<le> block_restart_interval (options b) \<Longrightarrow>
   builder_ok b' \<and> options b' = options b"
proof (induction kvs arbitrary: b)
  case Nil
  then show ?case by simp
next
  case (Cons kv kvs)
  obtain key val where kv: "kv = (key, val)" by (cases kv)
  from Cons.prems(1) kv obtain b1 where a: "Add key val b = Inr b1" and r: "Add_all kvs b1 = Inr b'"
    by (auto split: sum.splits)
  from Add_builder_ok [OF a Cons.prems(2,3)] Add_InrD(4) [OF a] Cons.prems(3)
  have "builder_ok b1" "options b1 = options b" "1 \<le> block_restart_interval (options b1)" by simp_all
  with Cons.IH [OF r] show ?case by simp
qed

lemma Add_all_last_key:
  "Add_all kvs b = Inr b' \<Longrightarrow> kvs \<noteq> [] \<Longrightarrow> last_key b' = fst (last kvs) \<and> buffer b' \<noteq> []"
proof (induction kvs arbitrary: b)
  case Nil
  then show ?case by simp
next
  case (Cons kv kvs)
  obtain key val where kv: "kv = (key, val)" by (cases kv)
  from Cons.prems(1) kv obtain b1 where a: "Add key val b = Inr b1" and r: "Add_all kvs b1 = Inr b'"
    by (auto split: sum.splits)
  show ?case
  proof (cases "kvs = []")
    case True
    with r a kv Add_InrD(5,9) [OF a] show ?thesis by (simp add: entry_bytes_nonempty)
  next
    case False
    with Cons.IH [OF r] show ?thesis by simp
  qed
qed

text \<open>
  C6. After at least one entry has been added, \<open>Add\<close> with a key that does not compare
  strictly greater than the previous key fails with \<open>OrderingViolation\<close> (no builder
  state is returned, so nothing is encoded); with a key that does compare greater, \<open>Add\<close>
  succeeds, so under the ordering precondition the failure branch is not taken. Once
  \<open>Finish\<close> has been called, \<open>Add\<close> fails for every key, at the assertion before.
\<close>

theorem Add_ordering_check:
  assumes "1 \<le> block_restart_interval opts"
    and "Add_all kvs (BlockBuilder_init opts) = Inr b" and "kvs \<noteq> []"
  shows "last_key b = fst (last kvs) \<and>
         (\<not> comparator opts key (fst (last kvs)) > 0 \<longrightarrow> Add key val b = Inl OrderingViolation) \<and>
         (comparator opts key (fst (last kvs)) > 0 \<longrightarrow> (\<exists>b'. Add key val b = Inr b')) \<and>
         Add key val (snd (Finish b)) = Inl FinishedStateViolation"
proof -
  have fin: "Add key val (snd (Finish b)) = Inl FinishedStateViolation"
    by (simp add: Add_def Finish_state)
  from Add_all_builder_ok [OF assms(2)] assms(1)
  have ok: "builder_ok b" and o: "options b = opts"
    by (simp_all add: builder_ok_init) (simp_all add: BlockBuilder_init_def)
  from Add_all_last_key [OF assms(2,3)] have lk: "last_key b = fst (last kvs)" and ne: "buffer b \<noteq> []"
    by simp_all
  have "\<not> comparator opts key (fst (last kvs)) > 0 \<Longrightarrow> Add key val b = Inl OrderingViolation"
    using ok o lk ne by (simp add: Add_def builder_ok_def Let_def)
  moreover have "comparator opts key (fst (last kvs)) > 0 \<Longrightarrow> \<exists>b'. Add key val b = Inr b'"
    using ok o lk Add_Inr_iff [of key val b] by (simp add: builder_ok_def)
  ultimately show ?thesis using lk fin by blast
qed

lemma length_PutFixed32: "length (PutFixed32 v) = 4"
  by (simp add: PutFixed32_def)

lemma length_trailer: "length (trailer rs) = length rs * 4 + 4"
  by (induction rs) (simp_all add: trailer_def length_PutFixed32)

text \<open>
  After \<open>Finish\<close> the buffer holds the trailer, so an estimate taken then counts the
  trailer a second time.
\<close>

lemma CurrentSizeEstimate_after_Finish:
  "CurrentSizeEstimate (snd (Finish b)) = length (fst (Finish b)) + length (restarts b) * 4 + 4"
  by (simp add: CurrentSizeEstimate_def Finish_buffer Finish_state)

text \<open>
  C4 (amended). \<open>CurrentSizeEstimate\<close> is the length of the buffer plus four bytes per
  restart plus four. It does not decrease across a successful \<open>Add\<close> (so not across any
  two successive calls). The estimate taken before \<open>Finish\<close> equals the length of the bytes
  that \<open>Finish\<close>, called next with no \<open>Add\<close> in between, returns. Once \<open>Finish\<close> has been
  called the estimate is larger than that length, by the length of the trailer (four bytes
  per restart plus four): the trailer is in the buffer by then and is counted again.
\<close>

theorem CurrentSizeEstimate_monotone_exact:
  "(Add key val b = Inr b' \<longrightarrow> CurrentSizeEstimate b \<le> CurrentSizeEstimate b') \<and>
   CurrentSizeEstimate b = length (fst (Finish b)) \<and>
   CurrentSizeEstimate (snd (Finish b)) = length (fst (Finish b)) + 4 * length (restarts b) + 4"
proof -
  have "CurrentSizeEstimate b \<le> CurrentSizeEstimate b'" if a: "Add key val b = Inr b'"
    using Add_InrD(5,6) [OF a] by (simp add: CurrentSizeEstimate_def)
  then show ?thesis
    using CurrentSizeEstimate_after_Finish [of b]
    by (simp add: CurrentSizeEstimate_def Finish_buffer length_trailer)
qed

text \<open>
  C5. \<open>Finish\<close> has no guard: it never fails and never reads \<open>finished\<close>, so a second
  call (the flag is already set) appends the restart trailer to the buffer a second time.
\<close>

theorem Finish_twice_appends_trailer_twice:
  "finished (snd (Finish b)) \<and>
   fst (Finish b) = buffer b @ trailer (restarts b) \<and>
   fst (Finish (snd (Finish b))) = buffer b @ trailer (restarts b) @ trailer (restarts b)"
  by (simp add: Finish_buffer Finish_state)

lemma varint_value_groups: "varint_value (varint_groups n @ rest) = Some (n, rest)"
proof (induction n rule: varint_groups.induct)
  case (1 n)
  show ?case
  proof (cases "n < 128")
    case True
    then show ?thesis
      by (subst varint_groups.simps) (simp add: unat_of_nat)
  next
    case False
    have "unat (of_nat (n mod 128 + 128) :: byte) = (n mod 128 + 128) mod 2 ^ LENGTH(8)"
      by (rule unat_of_nat)
    then have u: "unat (of_nat (n mod 128 + 128) :: byte) = n mod 128 + 128"
      by (simp del: of_nat_add)
    have "n mod 128 + 128 * (n div 128) = n" by presburger
    with False 1 u show ?thesis
      by (subst varint_groups.simps) (simp del: of_nat_add)
  qed
qed

lemma GetVarint32_PutVarint32: "GetVarint32 (PutVarint32 v @ rest) = Some (unat v, rest)"
proof -
  have "unat v < 2 ^ 32" using unsigned_less [of v] by simp
  then show ?thesis
    by (simp add: GetVarint32_def PutVarint32_def varint_value_groups)
qed

lemma unat_of_nat32: "n < 2 ^ 32 \<Longrightarrow> unat (of_nat n :: uint32_t) = n"
  by (simp add: unat_of_nat)

lemma GetVarint32_PutVarint32_of_nat:
  "n < 2 ^ 32 \<Longrightarrow> GetVarint32 (PutVarint32 (of_nat n) @ rest) = Some (n, rest)"
  using unat_of_nat32 [of n] by (simp only: GetVarint32_PutVarint32)

lemma PutVarint32_nonempty: "PutVarint32 v \<noteq> []"
  by (simp add: PutVarint32_def varint_groups_nonempty)

lemma parse_entries_entry_bytes:
  assumes "sh \<le> length key" and "length key < 2 ^ 32" and "length val < 2 ^ 32"
  shows "parse_entries (entry_bytes sh key val @ rest) =
           (case parse_entries rest of
              None \<Rightarrow> None
            | Some es \<Rightarrow>
                Some (\<lparr>shared_bytes = sh, unshared_bytes = length key - sh,
                       value_length = length val, key_delta = drop sh key,
                       value_bytes = val\<rparr> # es))"
proof -
  have a: "sh < 2 ^ 32" and b: "length key - sh < 2 ^ 32" using assms by simp_all
  have g1: "GetVarint32 (entry_bytes sh key val @ rest) =
      Some (sh, PutVarint32 (of_nat (length key - sh)) @ PutVarint32 (of_nat (length val))
                  @ drop sh key @ val @ rest)"
    unfolding entry_bytes_def append_assoc by (rule GetVarint32_PutVarint32_of_nat [OF a])
  have g2: "GetVarint32 (PutVarint32 (of_nat (length key - sh)) @ PutVarint32 (of_nat (length val))
                  @ drop sh key @ val @ rest) =
      Some (length key - sh, PutVarint32 (of_nat (length val)) @ drop sh key @ val @ rest)"
    by (rule GetVarint32_PutVarint32_of_nat [OF b])
  have g3: "GetVarint32 (PutVarint32 (of_nat (length val)) @ drop sh key @ val @ rest) =
      Some (length val, drop sh key @ val @ rest)"
    by (rule GetVarint32_PutVarint32_of_nat [OF assms(3)])
  have l: "length key - sh = length (drop sh key)" by simp
  have t1: "\<not> length (drop sh key @ val @ rest) < (length key - sh) + length val"
    by simp
  have t2: "take (length key - sh) (drop sh key @ val @ rest) = drop sh key"
    unfolding l by simp
  have t3: "take (length val) (drop (length key - sh) (drop sh key @ val @ rest)) = val"
    unfolding l by simp
  have t4: "drop (length key - sh + length val) (drop sh key @ val @ rest) = rest"
    unfolding l by (simp add: drop_append)
  show ?thesis
    by (subst parse_entries.simps)
      (simp only: g1 g2 g3 t1 t2 t3 t4 entry_bytes_nonempty append_is_Nil_conv
         option.case prod.case if_False simp_thms)
qed

lemma fixed32_digits:
  fixes x :: nat
  assumes "x < 4294967296"
  shows "x mod 256 + 256 * (x div 256 mod 256) + 65536 * (x div 65536 mod 256)
           + 16777216 * (x div 16777216 mod 256) = x"
proof -
  have e1: "x mod 65536 = 256 * (x div 256 mod 256) + x mod 256"
    using mod_mult2_eq [of x 256 256] by simp
  have e2: "x mod 16777216 = 65536 * (x div 65536 mod 256) + x mod 65536"
    using mod_mult2_eq [of x 65536 256] by simp
  have e3: "x mod 4294967296 = 16777216 * (x div 16777216 mod 256) + x mod 16777216"
    using mod_mult2_eq [of x 16777216 256] by simp
  have "x mod 4294967296 = x" using assms by simp
  with e1 e2 e3 show ?thesis by linarith
qed

lemma DecodeFixed32_digits:
  fixes x :: nat
  assumes "x < 4294967296"
  shows "DecodeFixed32 ([of_nat (x mod 256), of_nat (x div 256 mod 256),
      of_nat (x div 65536 mod 256), of_nat (x div 16777216 mod 256)] @ rest) = x"
proof -
  have "DecodeFixed32 ([of_nat (x mod 256), of_nat (x div 256 mod 256),
      of_nat (x div 65536 mod 256), of_nat (x div 16777216 mod 256)] @ rest) =
      x mod 256 + 256 * (x div 256 mod 256) + 65536 * (x div 65536 mod 256)
           + 16777216 * (x div 16777216 mod 256)"
    by (simp add: DecodeFixed32_def unat_of_nat)
  also have "\<dots> = x" by (rule fixed32_digits [OF assms])
  finally show ?thesis .
qed

lemma DecodeFixed32_PutFixed32: "DecodeFixed32 (PutFixed32 v @ rest) = unat v"
proof -
  have "unat v < 2 ^ 32" using unsigned_less [of v] by simp
  then have "unat v < 4294967296" by simp
  from DecodeFixed32_digits [OF this] show ?thesis
    unfolding PutFixed32_def .
qed

lemma shared_for_le_key: "shared_for b key \<le> length key"
  by (simp add: shared_for_def lcp_le2)

lemma shared_for_le_last: "shared_for b key \<le> length (last_key b)"
  by (simp add: shared_for_def lcp_le1)

lemma shared_for_rebuild: "take (shared_for b key) (last_key b) @ drop (shared_for b key) key = key"
proof (cases "counter b < block_restart_interval (options b)")
  case True
  then have "take (shared_for b key) (last_key b) = take (shared_for b key) key"
    by (simp add: shared_for_def lcp_take1 lcp_take2)
  then show ?thesis by simp
next
  case False
  then show ?thesis by (simp add: shared_for_def)
qed

lemma parse_entries_Nil: "parse_entries [] = Some []"
  by (subst parse_entries.simps) simp

lemma Add_all_decodes:
  "Add_all kvs b = Inr b' \<Longrightarrow>
   \<forall>(k, v) \<in> set kvs. length k < 2 ^ 32 \<and> length v < 2 ^ 32 \<Longrightarrow>
   \<exists>X es. buffer b' = buffer b @ X \<and> parse_entries X = Some es \<and>
          rebuild_keys (last_key b) es = Some kvs"
proof (induction kvs arbitrary: b)
  case Nil
  then show ?case by (simp add: parse_entries_Nil)
next
  case (Cons kv kvs)
  obtain key val where kv: "kv = (key, val)" by (cases kv)
  from Cons.prems(1) kv obtain b1 where a: "Add key val b = Inr b1" and r: "Add_all kvs b1 = Inr b'"
    by (auto split: sum.splits)
  from Cons.prems(2) kv have sz: "length key < 2 ^ 32" "length val < 2 ^ 32"
    and rest: "\<forall>(k, v) \<in> set kvs. length k < 2 ^ 32 \<and> length v < 2 ^ 32"
    by simp_all
  from Cons.IH [OF r rest] Add_InrD(9) [OF a]
  obtain X es where X: "buffer b' = buffer b1 @ X" "parse_entries X = Some es"
    "rebuild_keys key es = Some kvs"
    by auto
  let ?sh = "shared_for b key"
  let ?e = "\<lparr>shared_bytes = ?sh, unshared_bytes = length key - ?sh,
             value_length = length val, key_delta = drop ?sh key, value_bytes = val\<rparr>"
  have "buffer b' = buffer b @ (entry_bytes ?sh key val @ X)"
    using X(1) Add_InrD(5) [OF a] by simp
  moreover have "parse_entries (entry_bytes ?sh key val @ X) = Some (?e # es)"
    using parse_entries_entry_bytes [OF shared_for_le_key sz, of b X] X(2) by simp
  moreover have "rebuild_keys (last_key b) (?e # es) = Some (kv # kvs)"
    using X(3) kv shared_for_le_last [of b key] by (simp add: shared_for_rebuild)
  ultimately show ?case by blast
qed

lemma Add_all_succeeds:
  "builder_ok b \<Longrightarrow> 1 \<le> block_restart_interval (options b) \<Longrightarrow>
   successively (\<lambda>k1 k2. comparator (options b) k2 k1 > 0) (map fst kvs) \<Longrightarrow>
   (kvs \<noteq> [] \<Longrightarrow> buffer b = [] \<or> comparator (options b) (fst (hd kvs)) (last_key b) > 0) \<Longrightarrow>
   \<exists>b'. Add_all kvs b = Inr b'"
proof (induction kvs arbitrary: b)
  case Nil
  then show ?case by simp
next
  case (Cons kv kvs)
  obtain key val where kv: "kv = (key, val)" by (cases kv)
  from Cons.prems(1,4) kv obtain b1 where a: "Add key val b = Inr b1"
    using Add_Inr_iff [of key val b] by (auto simp: builder_ok_def)
  note d = Add_InrD [OF a]
  have ok1: "builder_ok b1" by (rule Add_builder_ok [OF a Cons.prems(1,2)])
  have "\<exists>b'. Add_all kvs b1 = Inr b'"
  proof (rule Cons.IH [OF ok1])
    show "1 \<le> block_restart_interval (options b1)" using d(4) Cons.prems(2) by simp
    show "successively (\<lambda>k1 k2. comparator (options b1) k2 k1 > 0) (map fst kvs)"
      using Cons.prems(3) d(4) by (cases kvs) simp_all
    show "buffer b1 = [] \<or> comparator (options b1) (fst (hd kvs)) (last_key b1) > 0" if "kvs \<noteq> []"
      using that Cons.prems(3) d(4,9) kv by (cases kvs) simp_all
  qed
  with a kv show ?case by simp
qed

lemma Add_all_restarts_length:
  "Add_all kvs b = Inr b' \<Longrightarrow> length (restarts b') \<le> length (restarts b) + length kvs"
proof (induction kvs arbitrary: b)
  case Nil
  then show ?case by simp
next
  case (Cons kv kvs)
  obtain key val where kv: "kv = (key, val)" by (cases kv)
  from Cons.prems(1) kv obtain b1 where a: "Add key val b = Inr b1" and r: "Add_all kvs b1 = Inr b'"
    by (auto split: sum.splits)
  from Cons.IH [OF r] Add_InrD(6) [OF a] show ?case by (simp split: if_splits)
qed

lemma decode_block_trailer:
  assumes "length rs < 2 ^ 32"
  shows "decode_block (buf @ trailer rs) =
           (case parse_entries buf of None \<Rightarrow> None | Some es \<Rightarrow> rebuild_keys [] es)"
proof -
  let ?bs = "buf @ trailer rs"
  have len: "length ?bs = length buf + length rs * 4 + 4" by (simp add: length_trailer)
  have lc: "length (concat (map PutFixed32 rs)) = length rs * 4"
    by (induction rs) (simp_all add: length_PutFixed32)
  have "drop (length ?bs - 4) ?bs = PutFixed32 (of_nat (length rs))"
    by (simp add: trailer_def lc length_PutFixed32)
  then have n: "DecodeFixed32 (drop (length ?bs - 4) ?bs) = length rs"
    using DecodeFixed32_PutFixed32 [of "of_nat (length rs)" "[]"] assms
    by (simp add: unat_of_nat32)
  have t: "take (length ?bs - (4 * length rs + 4)) ?bs = buf"
    by (simp add: length_trailer)
  show ?thesis
    unfolding decode_block_def n Let_def t by (simp add: length_trailer)
qed

text \<open>
  C1 (amended). For keys strictly increasing under the comparator, a restart interval of
  at least 1, keys and values shorter than \<open>2 ^ 32\<close> bytes and fewer than \<open>2 ^ 31\<close>
  entries, every \<open>Add\<close> succeeds and reading the bytes returned by \<open>Finish\<close> according
  to the block format gives back exactly the key-value sequence.
\<close>

theorem encode_decode_roundtrip:
  assumes "1 \<le> block_restart_interval opts"
    and "keys_increasing opts kvs"
    and "\<forall>(k, v) \<in> set kvs. length k < 2 ^ 32 \<and> length v < 2 ^ 32"
    and "length kvs < 2 ^ 31"
  shows "\<exists>b. Add_all kvs (BlockBuilder_init opts) = Inr b \<and>
             decode_block (fst (Finish b)) = Some kvs"
proof -
  let ?b0 = "BlockBuilder_init opts"
  have o: "options ?b0 = opts" "buffer ?b0 = []" "last_key ?b0 = []" "restarts ?b0 = [0]"
    by (simp_all add: BlockBuilder_init_def)
  from Add_all_succeeds [of ?b0 kvs] assms(1,2) obtain b where b: "Add_all kvs ?b0 = Inr b"
    by (auto simp: builder_ok_init o keys_increasing_def)
  from Add_all_decodes [OF b assms(3)] obtain es where
    es: "parse_entries (buffer b) = Some es" "rebuild_keys [] es = Some kvs"
    by (auto simp: o)
  from Add_all_restarts_length [OF b] assms(4) have "length (restarts b) < 2 ^ 32"
    by (simp add: o)
  from decode_block_trailer [OF this, of "buffer b"] es
  have "decode_block (fst (Finish b)) = Some kvs"
    by (simp add: Finish_buffer)
  with b show ?thesis by blast
qed

lemma Add_all_split:
  "Add_all (kv # kvs) b = Inr b' \<Longrightarrow>
   \<exists>b1. Add (fst kv) (snd kv) b = Inr b1 \<and> Add_all kvs b1 = Inr b'"
  by (cases kv) (auto split: sum.splits)

lemma Add_all_restarts_count:
  "Add_all kvs b = Inr b' \<Longrightarrow> builder_ok b \<Longrightarrow> 1 \<le> block_restart_interval (options b) \<Longrightarrow>
   length (restarts b') =
     length (restarts b) +
       (length kvs + nat (counter b) - 1) div nat (block_restart_interval (options b))"
proof (induction kvs arbitrary: b)
  case Nil
  then have "nat (counter b) - 1 < nat (block_restart_interval (options b))"
    by (simp add: builder_ok_def) linarith
  with Nil show ?case by simp
next
  case (Cons kv kvs)
  from Add_all_split [OF Cons.prems(1)] obtain b1 where
    a: "Add (fst kv) (snd kv) b = Inr b1" and r: "Add_all kvs b1 = Inr b'" by blast
  note d = Add_InrD [OF a]
  let ?K = "block_restart_interval (options b)"
  have ok1: "builder_ok b1" by (rule Add_builder_ok [OF a Cons.prems(2,3)])
  have K1: "1 \<le> block_restart_interval (options b1)" using d(4) Cons.prems(3) by simp
  note IH = Cons.IH [OF r ok1 K1]
  show ?case
  proof (cases "counter b < ?K")
    case True
    have c0: "0 \<le> counter b" using Cons.prems(2) by (simp add: builder_ok_def)
    have "nat (counter b + 1) = nat (counter b) + 1" using c0 by simp
    with IH d(4,6,7) True show ?thesis by simp
  next
    case False
    with Cons.prems(2) have ceq: "counter b = ?K" by (simp add: builder_ok_def)
    have Kp: "0 < nat ?K" using Cons.prems(3) by simp
    have "(length kvs + 1 + nat ?K - 1) div nat ?K = (length kvs + nat ?K) div nat ?K" by simp
    also have "\<dots> = length kvs div nat ?K + 1" using Kp by simp
    finally have e: "(length (kv # kvs) + nat (counter b) - 1) div nat ?K = length kvs div nat ?K + 1"
      by (simp add: ceq)
    from IH d(4,6,7) False have "length (restarts b') = length (restarts b) + 1 + length kvs div nat ?K"
      by simp
    with e show ?thesis by simp
  qed
qed

lemma ceiling_nat_div:
  assumes "1 \<le> K" and "0 < N"
  shows "\<lceil>real N / real_of_int K\<rceil> = int (1 + (N - 1) div nat K)"
proof -
  define m where "m = int N - 1"
  have m0: "0 \<le> m" using assms(2) by (simp add: m_def)
  have "- int N = K * (- 1 - m div K) + (K - 1 - m mod K)"
  proof -
    have "K * (m div K) + m mod K = m" by simp
    then have "K * (- 1 - m div K) + (K - 1 - m mod K) = - m - 1"
      by (simp add: algebra_simps)
    then show ?thesis by (simp add: m_def)
  qed
  moreover have "0 \<le> K - 1 - m mod K" "K - 1 - m mod K < K"
  proof -
    have "0 < K" using assms(1) by simp
    then have "0 \<le> m mod K" "m mod K < K" by simp_all
    then show "0 \<le> K - 1 - m mod K" "K - 1 - m mod K < K" by linarith+
  qed
  ultimately have d: "(- int N) div K = - 1 - m div K"
    by (rule int_div_pos_eq)
  have "\<lceil>real N / real_of_int K\<rceil> = - ((- int N) div K)"
    using ceiling_divide_eq_div [of "int N" K, where ?'a = real] by simp
  also have "\<dots> = 1 + m div K" using d by simp
  also have "m div K = int ((N - 1) div nat K)"
    using assms by (simp add: m_def zdiv_int of_nat_diff)
  finally show ?thesis by simp
qed

lemma Add_restarts_ok:
  assumes a: "Add key val b = Inr b'" and ok: "builder_ok b"
    and K: "1 \<le> block_restart_interval (options b)"
    and r: "restarts_ok b" and len: "length (buffer b') < 2 ^ 32"
  shows "restarts_ok b'"
proof -
  note d = Add_InrD [OF a]
  have grow: "length (buffer b) < length (buffer b')"
    using d(5) entry_bytes_nonempty [of "shared_for b key" key val] by simp
  show ?thesis
  proof (cases "counter b < block_restart_interval (options b)")
    case True
    with d(6,7) r grow ok show ?thesis
      by (auto simp: restarts_ok_def builder_ok_def)
  next
    case False
    with ok K have cpos: "0 < counter b" by (simp add: builder_ok_def)
    let ?n = "of_nat (length (buffer b)) :: uint32_t"
    have un: "unat ?n = length (buffer b)"
      using grow len by (simp add: unat_of_nat32)
    from r cpos have old: "\<forall>x \<in> set (restarts b). unat x < length (buffer b)"
      by (simp add: restarts_ok_def)
    then have "\<forall>x \<in> set (restarts b). x < ?n"
      by (simp add: word_less_nat_alt un)
    with r have "sorted_wrt (<) (restarts b @ [?n])"
      by (simp add: restarts_ok_def sorted_wrt_append)
    moreover have "\<forall>x \<in> set (restarts b @ [?n]). unat x < length (buffer b')"
      using old grow un by auto
    ultimately show ?thesis
      using False d(6,7) by (auto simp: restarts_ok_def intro: less_imp_le)
  qed
qed

lemma Add_all_buffer_grows:
  "Add_all kvs b = Inr b' \<Longrightarrow> length (buffer b) \<le> length (buffer b')"
proof (induction kvs arbitrary: b)
  case Nil
  then show ?case by simp
next
  case (Cons kv kvs)
  from Add_all_split [OF Cons.prems(1)] obtain b1 where
    a: "Add (fst kv) (snd kv) b = Inr b1" and r: "Add_all kvs b1 = Inr b'" by blast
  from Cons.IH [OF r] Add_InrD(5) [OF a] show ?case by simp
qed

lemma Add_all_restarts_ok:
  "Add_all kvs b = Inr b' \<Longrightarrow> builder_ok b \<Longrightarrow> 1 \<le> block_restart_interval (options b) \<Longrightarrow>
   restarts_ok b \<Longrightarrow> length (buffer b') < 2 ^ 32 \<Longrightarrow> restarts_ok b'"
proof (induction kvs arbitrary: b)
  case Nil
  then show ?case by simp
next
  case (Cons kv kvs)
  from Add_all_split [OF Cons.prems(1)] obtain b1 where
    a: "Add (fst kv) (snd kv) b = Inr b1" and r: "Add_all kvs b1 = Inr b'" by blast
  have ok1: "builder_ok b1" by (rule Add_builder_ok [OF a Cons.prems(2,3)])
  have K1: "1 \<le> block_restart_interval (options b1)"
    using Add_InrD(4) [OF a] Cons.prems(3) by simp
  have "length (buffer b1) < 2 ^ 32"
    using Add_all_buffer_grows [OF r] Cons.prems(5) by simp
  from Add_restarts_ok [OF a Cons.prems(2,3,4) this]
  have "restarts_ok b1" .
  from Cons.IH [OF r ok1 K1 this Cons.prems(5)] show ?case .
qed

lemma Add_all_restarts_prefix:
  "Add_all kvs b = Inr b' \<Longrightarrow> prefix (restarts b) (restarts b')"
proof (induction kvs arbitrary: b)
  case Nil
  then show ?case by simp
next
  case (Cons kv kvs)
  from Add_all_split [OF Cons.prems(1)] obtain b1 where
    a: "Add (fst kv) (snd kv) b = Inr b1" and r: "Add_all kvs b1 = Inr b'" by blast
  have "prefix (restarts b) (restarts b1)"
    using Add_InrD(6) [OF a] by (simp split: if_splits)
  with Cons.IH [OF r] show ?case by (rule prefix_order.trans [rotated])
qed

text \<open>
  C2 (amended). On a fresh or freshly reset builder with restart interval \<open>K \<ge> 1\<close>,
  after \<open>N \<ge> 1\<close> successful calls of \<open>Add\<close> the restart array has \<open>ceil (N / K)\<close>
  offsets; after none it has the one offset 0. The first offset is always 0, the
  offsets are strictly increasing as long as the entries take fewer than \<open>2 ^ 32\<close> bytes,
  and \<open>Finish\<close> appends exactly these offsets and their count.
\<close>

theorem restart_points:
  assumes "1 \<le> block_restart_interval opts"
    and "b0 = BlockBuilder_init opts \<or> (\<exists>old. options old = opts \<and> b0 = Reset old)"
    and "Add_all kvs b0 = Inr b"
  shows "(kvs \<noteq> [] \<longrightarrow>
            int (length (restarts b)) = \<lceil>real (length kvs) / real_of_int (block_restart_interval opts)\<rceil>) \<and>
         (kvs = [] \<longrightarrow> restarts b = [0]) \<and>
         restarts b ! 0 = 0 \<and>
         (length (buffer b) < 2 ^ 32 \<longrightarrow> sorted_wrt (<) (restarts b)) \<and>
         fst (Finish b) =
           buffer b @ concat (map PutFixed32 (restarts b)) @ PutFixed32 (of_nat (length (restarts b)))"
proof -
  from assms(2) have b0: "b0 = BlockBuilder_init opts" by (auto simp: Reset_init)
  have o: "options b0 = opts" "buffer b0 = []" "restarts b0 = [0]" "counter b0 = 0"
    by (simp_all add: b0 BlockBuilder_init_def)
  have ok: "builder_ok b0" using assms(1) by (simp add: b0 builder_ok_init)
  have K: "1 \<le> block_restart_interval (options b0)" using assms(1) o by simp
  from Add_all_restarts_count [OF assms(3) ok K]
  have n: "length (restarts b) = 1 + (length kvs - 1) div nat (block_restart_interval opts)"
    by (simp add: o)
  have c1: "int (length (restarts b)) = \<lceil>real (length kvs) / real_of_int (block_restart_interval opts)\<rceil>"
    if "kvs \<noteq> []"
    using ceiling_nat_div [OF assms(1), of "length kvs"] that n by simp
  have c2: "restarts b = [0]" if "kvs = []"
    using that assms(3) o by simp
  from Add_all_restarts_prefix [OF assms(3)] obtain xs where "restarts b = 0 # xs"
    by (auto simp: o prefix_def)
  then have c3: "restarts b ! 0 = 0" by simp
  have "restarts_ok b0" by (simp add: restarts_ok_def o)
  from Add_all_restarts_ok [OF assms(3) ok K this]
  have c4: "sorted_wrt (<) (restarts b)" if "length (buffer b) < 2 ^ 32"
    using that by (simp add: restarts_ok_def)
  have c5: "fst (Finish b) =
      buffer b @ concat (map PutFixed32 (restarts b)) @ PutFixed32 (of_nat (length (restarts b)))"
    by (simp add: Finish_buffer trailer_def)
  from c1 c2 c3 c4 c5 show ?thesis by blast
qed

lemma Add_all_options: "Add_all kvs b = Inr b' \<Longrightarrow> options b' = options b"
proof (induction kvs arbitrary: b)
  case Nil
  then show ?case by simp
next
  case (Cons kv kvs)
  from Add_all_split [OF Cons.prems(1)] obtain b1 where
    a: "Add (fst kv) (snd kv) b = Inr b1" and r: "Add_all kvs b1 = Inr b'" by blast
  from Cons.IH [OF r] Add_InrD(4) [OF a] show ?case by simp
qed

lemma encoded_shared_Add:
  assumes "Add key val b = Inr b'" and "shared_for b key < 2 ^ 32"
  shows "encoded_shared b b' = Some (shared_for b key)"
proof -
  have "drop (length (buffer b)) (buffer b') = entry_bytes (shared_for b key) key val"
    using Add_InrD(5) [OF assms(1)] by simp
  then show ?thesis
    unfolding encoded_shared_def entry_bytes_def
    by (simp only: GetVarint32_PutVarint32_of_nat [OF assms(2)] option.map fst_conv)
qed

text \<open>
  C3 (amended). Let \<open>k1\<close> be the last key added and \<open>k2\<close> the next one. If the restart
  group is not full (\<open>counter < interval\<close>), no restart is recorded and the encoded
  \<open>shared_bytes\<close> of the entry of \<open>k2\<close> is the length of the longest common prefix of
  \<open>k1\<close> and \<open>k2\<close>, provided that length is below \<open>2 ^ 32\<close>. If the group is full, the
  offset of the entry is recorded as a restart and the encoded \<open>shared_bytes\<close> is 0,
  whatever prefix the keys share and however long it is.
\<close>

theorem shared_bytes_encoded:
  assumes "Add_all kvs (BlockBuilder_init opts) = Inr b" and "kvs \<noteq> []"
    and "Add k2 v b = Inr b'"
  shows "(counter b < block_restart_interval opts \<longrightarrow>
            restarts b' = restarts b \<and>
            (length (longest_common_prefix (fst (last kvs)) k2) < 2 ^ 32 \<longrightarrow>
             encoded_shared b b' = Some (length (longest_common_prefix (fst (last kvs)) k2)))) \<and>
         (\<not> counter b < block_restart_interval opts \<longrightarrow>
            restarts b' = restarts b @ [of_nat (length (buffer b))] \<and>
            encoded_shared b b' = Some 0)"
proof -
  note d = Add_InrD [OF assms(3)]
  have o: "options b = opts"
    using Add_all_options [OF assms(1)] by (simp add: BlockBuilder_init_def)
  have lk: "last_key b = fst (last kvs)"
    using Add_all_last_key [OF assms(1,2)] by simp
  have sh: "shared_for b k2 =
      (if counter b < block_restart_interval opts
       then length (longest_common_prefix (fst (last kvs)) k2) else 0)"
    by (simp add: shared_for_def o lk)
  show ?thesis
  proof (cases "counter b < block_restart_interval opts")
    case True
    have "encoded_shared b b' = Some (length (longest_common_prefix (fst (last kvs)) k2))"
      if "length (longest_common_prefix (fst (last kvs)) k2) < 2 ^ 32"
      using encoded_shared_Add [OF assms(3)] sh True that by simp
    with True d(6) o show ?thesis by simp
  next
    case False
    with sh have "shared_for b k2 < 2 ^ 32" by simp
    from encoded_shared_Add [OF assms(3) this] sh False d(6) o show ?thesis by simp
  qed
qed

section \<open>Concrete runs of the block builder\<close>

lemma example_Add_1:
  "Add [1] [9] (BlockBuilder_init example_options) =
     Inr \<lparr>options = example_options, buffer = [0, 1, 1, 1, 9], restarts = [0], counter = 1,
          finished = False, last_key = [1]\<rparr>"
  by (simp add: Add_def BlockBuilder_init_def example_options_def Let_def shared_loop.simps
      resize_def PutVarint32_def varint_groups.simps)

text \<open>
  C6 at a concrete run: after \<open>Add [1] [9]\<close>, the key \<open>[1]\<close> is refused and the key
  \<open>[2]\<close> is accepted.
\<close>

theorem Add_ordering_check_witness:
  "1 \<le> block_restart_interval example_options \<and>
   Add_all [([1], [9])] (BlockBuilder_init example_options) =
     Inr \<lparr>options = example_options, buffer = [0, 1, 1, 1, 9], restarts = [0], counter = 1,
          finished = False, last_key = [1]\<rparr> \<and>
   \<not> comparator example_options [1] [1] > 0 \<and>
   Add [1] [7] \<lparr>options = example_options, buffer = [0, 1, 1, 1, 9], restarts = [0], counter = 1,
          finished = False, last_key = [1]\<rparr> = Inl OrderingViolation \<and>
   comparator example_options [2] [1] > 0 \<and>
   (\<exists>b'. Add [2] [7] \<lparr>options = example_options, buffer = [0, 1, 1, 1, 9], restarts = [0],
          counter = 1, finished = False, last_key = [1]\<rparr> = Inr b')"
proof -
  let ?b = "\<lparr>options = example_options, buffer = [0, 1, 1, 1, 9], restarts = [0], counter = 1,
          finished = False, last_key = [1]\<rparr>"
  have i: "1 \<le> block_restart_interval example_options" by (simp add: example_options_def)
  have r: "Add_all [([1], [9])] (BlockBuilder_init example_options) = Inr ?b"
    by (simp add: example_Add_1)
  have c1: "\<not> comparator example_options [1] [1] > 0" by (simp add: example_options_def)
  have c2: "comparator example_options [2] [1] > 0" by (simp add: example_options_def)
  from Add_ordering_check [OF i r, of "[1]" "[7]"] Add_ordering_check [OF i r, of "[2]" "[7]"]
    i r c1 c2
  show ?thesis by simp
qed

text \<open>
  C4 (amended) at a concrete run: the estimate goes from 8 to 13 across \<open>Add [1] [9]\<close>;
  the empty block that \<open>Finish\<close> returns has 8 bytes, and the estimate is 16 afterwards.
\<close>

theorem CurrentSizeEstimate_witness:
  "Add [1] [9] (BlockBuilder_init example_options) =
     Inr \<lparr>options = example_options, buffer = [0, 1, 1, 1, 9], restarts = [0], counter = 1,
          finished = False, last_key = [1]\<rparr> \<and>
   CurrentSizeEstimate (BlockBuilder_init example_options) = 8 \<and>
   CurrentSizeEstimate \<lparr>options = example_options, buffer = [0, 1, 1, 1, 9], restarts = [0],
          counter = 1, finished = False, last_key = [1]\<rparr> = 13 \<and>
   length (fst (Finish (BlockBuilder_init example_options))) = 8 \<and>
   CurrentSizeEstimate (snd (Finish (BlockBuilder_init example_options))) = 16"
  using CurrentSizeEstimate_monotone_exact [of "[1]" "[9]" "BlockBuilder_init example_options"
      "\<lparr>options = example_options, buffer = [0, 1, 1, 1, 9], restarts = [0], counter = 1,
          finished = False, last_key = [1]\<rparr>"]
  by (simp add: example_Add_1) (simp add: CurrentSizeEstimate_def BlockBuilder_init_def)

text \<open>
  C4 as stated fails: after \<open>Add [1] [9]\<close> on a fresh builder, \<open>Finish\<close> returns 13 bytes
  (5 of the entry, 4 of the one restart offset, 4 of the count), and
  \<open>CurrentSizeEstimate\<close>, called once \<open>Finish\<close> has returned, gives 21.
\<close>

theorem CurrentSizeEstimate_after_Finish_counterexample:
  "Add [1] [9] (BlockBuilder_init example_options) =
     Inr \<lparr>options = example_options, buffer = [0, 1, 1, 1, 9], restarts = [0], counter = 1,
          finished = False, last_key = [1]\<rparr> \<and>
   fst (Finish \<lparr>options = example_options, buffer = [0, 1, 1, 1, 9], restarts = [0],
          counter = 1, finished = False, last_key = [1]\<rparr>) =
     [0, 1, 1, 1, 9, 0, 0, 0, 0, 1, 0, 0, 0] \<and>
   length (fst (Finish \<lparr>options = example_options, buffer = [0, 1, 1, 1, 9], restarts = [0],
          counter = 1, finished = False, last_key = [1]\<rparr>)) = 13 \<and>
   CurrentSizeEstimate (snd (Finish \<lparr>options = example_options, buffer = [0, 1, 1, 1, 9],
          restarts = [0], counter = 1, finished = False, last_key = [1]\<rparr>)) = 21"
  by (simp add: example_Add_1 Finish_def CurrentSizeEstimate_def PutFixed32_def Let_def)

lemma PutVarint32_0: "PutVarint32 0 = [0]"
  by (simp add: PutVarint32_def varint_groups.simps)

lemma GetVarint32_0: "GetVarint32 (0 # rest) = Some (0, rest)"
  by (simp add: GetVarint32_def)

lemma PutVarint32_wrap: "PutVarint32 4294967296 = [0]"
proof -
  have "(4294967296 :: uint32_t) = 0" by simp
  then show ?thesis by (simp only: PutVarint32_0)
qed

lemma big_Add:
  "Add [] (replicate 4294967296 0) (BlockBuilder_init example_options) =
     Inr \<lparr>options = example_options, buffer = 0 # 0 # 0 # replicate 4294967296 0,
          restarts = [0], counter = 1, finished = False, last_key = []\<rparr>"
  by (simp add: Add_def BlockBuilder_init_def example_options_def Let_def shared_loop.simps
      resize_def PutVarint32_0 PutVarint32_wrap)

lemma big_Finish:
  "fst (Finish \<lparr>options = example_options, buffer = 0 # 0 # 0 # replicate 4294967296 0,
          restarts = [0], counter = 1, finished = False, last_key = []\<rparr>) =
     0 # 0 # 0 # replicate 4294967296 0 @ [0, 0, 0, 0, 1, 0, 0, 0]"
  by (simp add: Finish_buffer trailer_def PutFixed32_def)

lemma big_decode:
  "decode_block (0 # 0 # 0 # replicate 4294967296 0 @ [0, 0, 0, 0, 1, 0, 0, 0]) =
     (case parse_entries (replicate 4294967296 0) of
        None \<Rightarrow> None
      | Some es \<Rightarrow>
          rebuild_keys [] (\<lparr>shared_bytes = 0, unshared_bytes = 0, value_length = 0,
                              key_delta = [], value_bytes = []\<rparr> # es))"
proof -
  have p: "parse_entries (0 # 0 # 0 # replicate 4294967296 0) =
     (case parse_entries (replicate 4294967296 0) of
        None \<Rightarrow> None
      | Some es \<Rightarrow>
          Some (\<lparr>shared_bytes = 0, unshared_bytes = 0, value_length = 0,
                              key_delta = [], value_bytes = []\<rparr> # es))"
    by (subst parse_entries.simps) (simp add: GetVarint32_0 cong: option.case_cong)
  have "decode_block (0 # 0 # 0 # replicate 4294967296 0 @ [0, 0, 0, 0, 1, 0, 0, 0]) =
     (case parse_entries (0 # 0 # 0 # replicate 4294967296 0) of
        None \<Rightarrow> None | Some es \<Rightarrow> rebuild_keys [] es)"
    by (simp add: decode_block_def DecodeFixed32_def)
  then show ?thesis by (simp add: p split: option.splits)
qed

text \<open>
  C1 as stated fails for a value of \<open>2 ^ 32\<close> bytes: its length is written as the
  varint32 of 0, and the reader does not get the value back.
\<close>

theorem roundtrip_counterexample:
  "Add_all [([], replicate 4294967296 0)] (BlockBuilder_init example_options) =
     Inr \<lparr>options = example_options, buffer = 0 # 0 # 0 # replicate 4294967296 0,
          restarts = [0], counter = 1, finished = False, last_key = []\<rparr> \<and>
   decode_block (fst (Finish \<lparr>options = example_options,
          buffer = 0 # 0 # 0 # replicate 4294967296 0,
          restarts = [0], counter = 1, finished = False, last_key = []\<rparr>))
     \<noteq> Some [([], replicate 4294967296 0)]"
  by (simp add: big_Add big_Finish big_decode split: option.splits)

lemma varint_big: "PutVarint32 4294967285 = [245, 255, 255, 255, 15]"
  by (simp add: PutVarint32_def varint_groups.simps)

lemma varint_groups_small: "n < 128 \<Longrightarrow> varint_groups n = [of_nat n]"
  by (subst varint_groups.simps) simp

lemma wrap_run:
  "Add_all [([], []), ([1], replicate 4294967285 0), ([2], [])] (BlockBuilder_init restart_every_entry) =
     Inr \<lparr>options = restart_every_entry,
          buffer = [0, 0, 0] @ [0, 1, 245, 255, 255, 255, 15, 1] @ replicate 4294967285 0 @ [0, 1, 0, 2],
          restarts = [0, 3, 0], counter = 1, finished = False, last_key = [2]\<rparr>"
  by (simp add: Add_def BlockBuilder_init_def restart_every_entry_def Let_def shared_loop.simps
      resize_def PutVarint32_0 varint_big PutVarint32_def [of 1] varint_groups_small)

text \<open>
  C2 as stated fails twice. With no entry the restart array holds one offset, not
  \<open>ceil (0 / K) = 0\<close>. With a restart at every entry and a second entry that ends at byte
  \<open>2 ^ 32\<close>, the third offset is truncated to 0 and the array \<open>[0, 3, 0]\<close> is not
  increasing.
\<close>

theorem restart_points_counterexample:
  "Add_all [] (BlockBuilder_init example_options) = Inr (BlockBuilder_init example_options) \<and>
   int (length (restarts (BlockBuilder_init example_options))) \<noteq>
     \<lceil>real (length ([] :: (bytes \<times> bytes) list)) / real_of_int (block_restart_interval example_options)\<rceil> \<and>
   Add_all [([], []), ([1], replicate 4294967285 0), ([2], [])] (BlockBuilder_init restart_every_entry) =
     Inr \<lparr>options = restart_every_entry,
          buffer = [0, 0, 0] @ [0, 1, 245, 255, 255, 255, 15, 1] @ replicate 4294967285 0 @ [0, 1, 0, 2],
          restarts = [0, 3, 0], counter = 1, finished = False, last_key = [2]\<rparr> \<and>
   \<not> sorted_wrt (<) [0, 3, 0 :: uint32_t]"
proof -
  have a: "Add_all [] (BlockBuilder_init example_options) = Inr (BlockBuilder_init example_options)"
    by simp
  have b: "int (length (restarts (BlockBuilder_init example_options))) \<noteq>
     \<lceil>real (length ([] :: (bytes \<times> bytes) list)) / real_of_int (block_restart_interval example_options)\<rceil>"
    by (simp add: BlockBuilder_init_def)
  have d: "\<not> sorted_wrt (<) [0, 3, 0 :: uint32_t]" by simp
  show ?thesis by (intro conjI a b wrap_run d)
qed

lemma bytewise_compare_longer: "bytewise_compare (replicate (n + m + 1) x) (replicate n x) = 1"
  by (induction n) simp_all

lemma lcp_replicate:
  "longest_common_prefix (replicate n x) (replicate (n + m) x) = replicate n x"
  by (induction n) simp_all

lemma long_Add_1:
  "Add (replicate 4294967296 0) [] (BlockBuilder_init example_options) =
     Inr \<lparr>options = example_options, buffer = 0 # 0 # 0 # replicate 4294967296 0,
          restarts = [0], counter = 1, finished = False, last_key = replicate 4294967296 0\<rparr>"
  by (simp add: Add_def BlockBuilder_init_def example_options_def Let_def shared_loop.simps
      resize_def PutVarint32_0 PutVarint32_wrap)

lemma long_Add_2:
  "Add (replicate 4294967297 0) []
       \<lparr>options = example_options, buffer = 0 # 0 # 0 # replicate 4294967296 0,
        restarts = [0], counter = 1, finished = False, last_key = replicate 4294967296 0\<rparr> =
     Inr \<lparr>options = example_options,
          buffer = 0 # 0 # 0 # replicate 4294967296 0 @ [0, 1, 0, 0],
          restarts = [0], counter = 2, finished = False, last_key = replicate 4294967297 0\<rparr>"
proof -
  let ?k1 = "replicate 4294967296 (0 :: byte)" and ?k2 = "replicate 4294967297 (0 :: byte)"
  let ?b = "\<lparr>options = example_options, buffer = 0 # 0 # 0 # ?k1,
        restarts = [0], counter = 1, finished = False, last_key = ?k1\<rparr>"
  have c: "bytewise_compare ?k2 ?k1 = 1"
    using bytewise_compare_longer [of 4294967296 0 0] by simp
  have l: "longest_common_prefix ?k1 ?k2 = ?k1"
    using lcp_replicate [of 4294967296 0 1] by simp
  have sh: "shared_for ?b ?k2 = 4294967296"
    by (simp add: shared_for_def example_options_def l)
  have e: "entry_bytes 4294967296 ?k2 [] = [0, 1, 0, 0]"
    by (simp add: entry_bytes_def PutVarint32_wrap PutVarint32_0 PutVarint32_def [of 1]
        varint_groups_small)
  have p1: "\<not> finished ?b" by simp
  have p2: "counter ?b \<le> block_restart_interval (options ?b)" by (simp add: example_options_def)
  have p3: "buffer ?b = [] \<or> comparator (options ?b) ?k2 (last_key ?b) > 0"
    by (simp add: example_options_def c)
  have p4: "counter ?b < block_restart_interval (options ?b)" by (simp add: example_options_def)
  from Add_success [OF p1 p2 p3, of "[]"] obtain b' where
    b': "Add ?k2 [] ?b = Inr b'" "options b' = options ?b"
      "buffer b' = buffer ?b @ entry_bytes (shared_for ?b ?k2) ?k2 []"
      "restarts b' = restarts ?b" "counter b' = counter ?b + 1"
      "\<not> finished b'" "last_key b' = ?k2"
    unfolding if_P [OF p4] by blast
  from b'(3) have "buffer b' = 0 # 0 # 0 # ?k1 @ [0, 1, 0, 0]"
    unfolding sh e by simp
  with b' show ?thesis by (cases b') simp
qed

text \<open>
  C3 as stated fails for two keys in one restart group that share \<open>2 ^ 32\<close> bytes: the
  encoded \<open>shared_bytes\<close> is 0.
\<close>

theorem shared_bytes_counterexample:
  "Add_all [(replicate 4294967296 0, [])] (BlockBuilder_init example_options) =
     Inr \<lparr>options = example_options, buffer = 0 # 0 # 0 # replicate 4294967296 0,
          restarts = [0], counter = 1, finished = False, last_key = replicate 4294967296 0\<rparr> \<and>
   Add (replicate 4294967297 0) []
       \<lparr>options = example_options, buffer = 0 # 0 # 0 # replicate 4294967296 0,
        restarts = [0], counter = 1, finished = False, last_key = replicate 4294967296 0\<rparr> =
     Inr \<lparr>options = example_options,
          buffer = 0 # 0 # 0 # replicate 4294967296 0 @ [0, 1, 0, 0],
          restarts = [0], counter = 2, finished = False, last_key = replicate 4294967297 0\<rparr> \<and>
   counter \<lparr>options = example_options, buffer = 0 # 0 # 0 # replicate 4294967296 0,
          restarts = [0], counter = 1, finished = False, last_key = replicate 4294967296 0\<rparr>
     < block_restart_interval example_options \<and>
   length (longest_common_prefix (replicate 4294967296 (0 :: byte)) (replicate 4294967297 0)) = 4294967296 \<and>
   encoded_shared
       \<lparr>options = example_options, buffer = 0 # 0 # 0 # replicate 4294967296 0,
        restarts = [0], counter = 1, finished = False, last_key = replicate 4294967296 0\<rparr>
       \<lparr>options = example_options,
          buffer = 0 # 0 # 0 # replicate 4294967296 0 @ [0, 1, 0, 0],
          restarts = [0], counter = 2, finished = False, last_key = replicate 4294967297 0\<rparr>
     = Some 0"
proof -
  have a: "Add_all [(replicate 4294967296 0, [])] (BlockBuilder_init example_options) =
     Inr \<lparr>options = example_options, buffer = 0 # 0 # 0 # replicate 4294967296 0,
          restarts = [0], counter = 1, finished = False, last_key = replicate 4294967296 0\<rparr>"
    by (simp only: Add_all.simps long_Add_1 sum.case prod.case)
  have c: "counter \<lparr>options = example_options, buffer = 0 # 0 # 0 # replicate 4294967296 0,
          restarts = [0], counter = 1, finished = False, last_key = replicate 4294967296 0\<rparr>
     < block_restart_interval example_options"
    by (simp add: example_options_def)
  have l: "length (longest_common_prefix (replicate 4294967296 (0 :: byte)) (replicate 4294967297 0)) = 4294967296"
    using lcp_replicate [of 4294967296 "0 :: byte" 1] by simp
  have e: "encoded_shared
       \<lparr>options = example_options, buffer = 0 # 0 # 0 # replicate 4294967296 0,
        restarts = [0], counter = 1, finished = False, last_key = replicate 4294967296 0\<rparr>
       \<lparr>options = example_options,
          buffer = 0 # 0 # 0 # replicate 4294967296 0 @ [0, 1, 0, 0],
          restarts = [0], counter = 2, finished = False, last_key = replicate 4294967297 0\<rparr>
     = Some 0"
    by (simp add: encoded_shared_def GetVarint32_0)
  show ?thesis by (intro conjI a long_Add_2 c l e)
qed

lemmas Add_eval =
  Add_def BlockBuilder_init_def example_options_def Let_def shared_loop.simps resize_def
  PutVarint32_def varint_groups_small

lemma example_run_2:
  "Add_all [([1], [9]), ([1, 2], [8])] (BlockBuilder_init example_options) =
     Inr \<lparr>options = example_options, buffer = [0, 1, 1, 1, 9, 1, 1, 1, 2, 8], restarts = [0],
          counter = 2, finished = False, last_key = [1, 2]\<rparr>"
  by (simp add: Add_eval)

lemma example_run_3:
  "Add_all [([1], [9]), ([1, 2], [8]), ([1, 2, 3], [])] (BlockBuilder_init example_options) =
     Inr \<lparr>options = example_options,
          buffer = [0, 1, 1, 1, 9, 1, 1, 1, 2, 8, 0, 3, 0, 1, 2, 3], restarts = [0, 10],
          counter = 1, finished = False, last_key = [1, 2, 3]\<rparr>"
  by (simp add: Add_eval)

lemma example_Add_3:
  "Add [1, 2, 3] [] \<lparr>options = example_options, buffer = [0, 1, 1, 1, 9, 1, 1, 1, 2, 8],
          restarts = [0], counter = 2, finished = False, last_key = [1, 2]\<rparr> =
     Inr \<lparr>options = example_options,
          buffer = [0, 1, 1, 1, 9, 1, 1, 1, 2, 8, 0, 3, 0, 1, 2, 3], restarts = [0, 10],
          counter = 1, finished = False, last_key = [1, 2, 3]\<rparr>"
  by (simp add: Add_eval)

text \<open>
  C1 (amended) at a concrete run of three entries with restart interval 2.
\<close>

theorem encode_decode_roundtrip_witness:
  "1 \<le> block_restart_interval example_options \<and>
   keys_increasing example_options [([1], [9]), ([1, 2], [8]), ([1, 2, 3], [])] \<and>
   (\<exists>b. Add_all [([1], [9]), ([1, 2], [8]), ([1, 2, 3], [])] (BlockBuilder_init example_options) = Inr b \<and>
        decode_block (fst (Finish b)) = Some [([1], [9]), ([1, 2], [8]), ([1, 2, 3], [])])"
proof -
  have i: "1 \<le> block_restart_interval example_options" by (simp add: example_options_def)
  have k: "keys_increasing example_options [([1], [9]), ([1, 2], [8]), ([1, 2, 3], [])]"
    by (simp add: keys_increasing_def example_options_def)
  have s: "\<forall>(k, v) \<in> set [([1], [9]), ([1, 2], [8]), ([1, 2, 3 :: byte], [] :: bytes)].
      length k < 2 ^ 32 \<and> length v < 2 ^ 32" by simp
  have n: "length [([1], [9]), ([1, 2], [8]), ([1, 2, 3 :: byte], [] :: bytes)] < 2 ^ 31" by simp
  from encode_decode_roundtrip [OF i k s n] i k show ?thesis by blast
qed

text \<open>
  C2 (amended) at a concrete run: three entries, interval 2, restarts \<open>[0, 10]\<close>.
\<close>

theorem restart_points_witness:
  "1 \<le> block_restart_interval example_options \<and>
   Add_all [([1], [9]), ([1, 2], [8]), ([1, 2, 3], [])] (BlockBuilder_init example_options) =
     Inr \<lparr>options = example_options,
          buffer = [0, 1, 1, 1, 9, 1, 1, 1, 2, 8, 0, 3, 0, 1, 2, 3], restarts = [0, 10],
          counter = 1, finished = False, last_key = [1, 2, 3]\<rparr> \<and>
   int (length [0, 10 :: uint32_t]) = \<lceil>real 3 / real_of_int 2\<rceil> \<and>
   [0, 10 :: uint32_t] ! 0 = 0 \<and>
   length [0, 1, 1, 1, 9, 1, 1, 1, 2, 8, 0, 3, 0, 1, 2, 3 :: byte] < 2 ^ 32 \<and>
   sorted_wrt (<) [0, 10 :: uint32_t]"
proof -
  have i: "1 \<le> block_restart_interval example_options" by (simp add: example_options_def)
  have b0: "BlockBuilder_init example_options = BlockBuilder_init example_options \<or>
      (\<exists>old. options old = example_options \<and> BlockBuilder_init example_options = Reset old)"
    by simp
  from restart_points [OF i b0 example_run_3] i example_run_3
  show ?thesis by (simp add: example_options_def)
qed

text \<open>
  C3 (amended) at a concrete run: \<open>[1, 2]\<close> after \<open>[1]\<close> in the same group shares one
  byte; \<open>[1, 2, 3]\<close> after \<open>[1, 2]\<close> starts a new group and is encoded with 0 shared
  bytes, although the keys share two.
\<close>

theorem shared_bytes_encoded_witness:
  "Add_all [([1], [9])] (BlockBuilder_init example_options) =
     Inr \<lparr>options = example_options, buffer = [0, 1, 1, 1, 9], restarts = [0], counter = 1,
          finished = False, last_key = [1]\<rparr> \<and>
   Add [1, 2] [8] \<lparr>options = example_options, buffer = [0, 1, 1, 1, 9], restarts = [0],
          counter = 1, finished = False, last_key = [1]\<rparr> =
     Inr \<lparr>options = example_options, buffer = [0, 1, 1, 1, 9, 1, 1, 1, 2, 8], restarts = [0],
          counter = 2, finished = False, last_key = [1, 2]\<rparr> \<and>
   encoded_shared
     \<lparr>options = example_options, buffer = [0, 1, 1, 1, 9], restarts = [0],
          counter = 1, finished = False, last_key = [1]\<rparr>
     \<lparr>options = example_options, buffer = [0, 1, 1, 1, 9, 1, 1, 1, 2, 8], restarts = [0],
          counter = 2, finished = False, last_key = [1, 2]\<rparr> = Some 1 \<and>
   length (longest_common_prefix [1, 2] [1, 2, 3 :: byte]) = 2 \<and>
   encoded_shared
     \<lparr>options = example_options, buffer = [0, 1, 1, 1, 9, 1, 1, 1, 2, 8], restarts = [0],
          counter = 2, finished = False, last_key = [1, 2]\<rparr>
     \<lparr>options = example_options,
          buffer = [0, 1, 1, 1, 9, 1, 1, 1, 2, 8, 0, 3, 0, 1, 2, 3], restarts = [0, 10],
          counter = 1, finished = False, last_key = [1, 2, 3]\<rparr> = Some 0"
proof -
  have r1: "Add_all [([1], [9])] (BlockBuilder_init example_options) =
     Inr \<lparr>options = example_options, buffer = [0, 1, 1, 1, 9], restarts = [0], counter = 1,
          finished = False, last_key = [1]\<rparr>"
    by (simp add: Add_eval)
  have a2: "Add [1, 2] [8] \<lparr>options = example_options, buffer = [0, 1, 1, 1, 9], restarts = [0],
          counter = 1, finished = False, last_key = [1]\<rparr> =
     Inr \<lparr>options = example_options, buffer = [0, 1, 1, 1, 9, 1, 1, 1, 2, 8], restarts = [0],
          counter = 2, finished = False, last_key = [1, 2]\<rparr>"
    by (simp add: Add_eval)
  from shared_bytes_encoded [OF r1 _ a2] shared_bytes_encoded [OF example_run_2 _ example_Add_3]
    r1 a2
  show ?thesis by (simp add: example_options_def)
qed

section \<open>Properties of the arena\<close>

lemma unat_and_7: "unat (w AND 7) = unat w mod 8" for w :: "64 word"
proof -
  have "w AND 7 = take_bit 3 w"
    using take_bit_eq_mask [of 3 w] by (simp add: mask_eq_exp_minus_1)
  then show ?thesis by (simp add: unsigned_take_bit_eq take_bit_eq_mod unat_mod)
qed

lemma and_7_zero_iff: "w AND 7 = 0 \<longleftrightarrow> unat w mod 8 = 0" for w :: "64 word"
  using unat_and_7 [of w] by (metis unat_eq_0)

lemma slop_aligned:
  fixes p :: "64 word"
  shows "(p + (if p AND 7 = 0 then 0 else 8 - (p AND 7))) AND 7 = 0"
proof (cases "p AND 7 = 0")
  case True
  then show ?thesis by simp
next
  case False
  have eq: "p + (8 - (p AND 7)) = (p - (p AND 7)) + 8" by simp
  have m: "unat (p AND 7) = unat p mod 8" by (rule unat_and_7)
  have le: "p AND 7 \<le> p" by (simp add: word_and_le2)
  have "unat (p - (p AND 7)) = unat p - unat p mod 8"
    using le m by (simp add: unat_sub)
  then have "unat (p - (p AND 7)) mod 8 = 0"
    by (metis minus_mod_eq_mult_div mod_mult_self1_is_0 mult.commute)
  then have z: "(p - (p AND 7)) AND 7 = 0" by (simp add: and_7_zero_iff)
  have "(p + (8 - (p AND 7))) AND 7 = ((p - (p AND 7)) + 8) AND 7" by (simp only: eq)
  also have "\<dots> = 0"
  proof -
    have "unat ((p - (p AND 7)) + 8) mod 8 = (unat (p - (p AND 7)) + 8) mod 2 ^ 64 mod 8"
      by (simp add: unat_word_ariths)
    also have "\<dots> = (unat (p - (p AND 7)) + 8) mod 8"
      by (simp add: mod_mod_cancel)
    also have "\<dots> = 0" using \<open>unat (p - (p AND 7)) mod 8 = 0\<close> by simp
    finally show ?thesis by (simp add: and_7_zero_iff)
  qed
  finally show ?thesis using False by simp
qed

lemma AllocateNewBlock_Inr:
  "AllocateNewBlock new_char n a = Inr (p, a') \<longleftrightarrow>
     new_char (blocks a) n = Some p \<and>
     a' = a\<lparr>blocks_memory := blocks_memory a + n, blocks := blocks a @ [(p, n)]\<rparr>"
  by (auto simp: AllocateNewBlock_def split: option.splits)

lemma AllocateNewBlock_Inl: "AllocateNewBlock new_char n a = Inl e \<Longrightarrow> e = BadAlloc"
  by (auto simp: AllocateNewBlock_def split: option.splits)

lemma AllocateFallback_Inl: "AllocateFallback new_char n a = Inl e \<Longrightarrow> e = BadAlloc"
  by (auto simp: AllocateFallback_def Let_def split: if_splits sum.splits dest: AllocateNewBlock_Inl)

lemma AllocateFallback_large:
  assumes "1024 < unat n"
  shows "AllocateFallback new_char n a = Inr (p, a') \<longleftrightarrow>
     new_char (blocks a) n = Some p \<and>
     a' = a\<lparr>blocks_memory := blocks_memory a + n, blocks := blocks a @ [(p, n)]\<rparr>"
proof -
  have "(1024 :: 64 word) < n" using assms by (simp add: word_less_nat_alt)
  then show ?thesis
    by (simp add: AllocateFallback_def kBlockSize_def AllocateNewBlock_Inr)
qed

lemma AllocateFallback_small:
  assumes "unat n \<le> 1024"
  shows "AllocateFallback new_char n a = Inr (p, a') \<longleftrightarrow>
     new_char (blocks a) 4096 = Some p \<and>
     a' = a\<lparr>blocks_memory := blocks_memory a + 4096, blocks := blocks a @ [(p, 4096)],
             alloc_ptr := p + n, alloc_bytes_remaining := 4096 - n\<rparr>"
proof -
  have "\<not> (1024 :: 64 word) < n" using assms by (simp add: word_less_nat_alt)
  then show ?thesis
    by (auto simp: AllocateFallback_def kBlockSize_def Let_def AllocateNewBlock_def
        split: option.splits)
qed

lemma AllocateFallback_from_new:
  "AllocateFallback new_char n a = Inr (p, a') \<Longrightarrow> \<exists>m. new_char (blocks a) m = Some p"
  by (cases "1024 < unat n") (auto simp: AllocateFallback_large AllocateFallback_small)

lemma AllocateAligned_aligned_step:
  assumes "new_aligned new_char"
  shows "AllocateAligned new_char n a \<noteq> Inl AlignmentInvariantViolation"
    and "AllocateAligned new_char n a = Inr (p, a') \<Longrightarrow> unat p mod 8 = 0"
proof -
  let ?slop = "if alloc_ptr a AND 7 = 0 then 0 else 8 - (alloc_ptr a AND 7)"
  have fb: "q AND 7 = 0" if "AllocateFallback new_char n a = Inr (q, a'')" for q a''
  proof -
    from AllocateFallback_from_new [OF that] obtain m where "new_char (blocks a) m = Some q" ..
    with assms have "unat q mod 8 = 0" by (auto simp: new_aligned_def pointer_size_def)
    then show ?thesis by (simp add: and_7_zero_iff)
  qed
  have fast: "(alloc_ptr a + ?slop) AND 7 = 0" by (rule slop_aligned)
  show "AllocateAligned new_char n a \<noteq> Inl AlignmentInvariantViolation"
    using fast fb
    by (auto simp: AllocateAligned_def pointer_size_def Let_def
        split: if_splits sum.splits dest: AllocateFallback_Inl)
  show "unat p mod 8 = 0" if "AllocateAligned new_char n a = Inr (p, a')"
    using that
    by (auto simp: AllocateAligned_def pointer_size_def Let_def and_7_zero_iff [symmetric]
        split: if_splits sum.splits)
qed

lemma Allocate_Inl: "Allocate new_char n a = Inl e \<Longrightarrow> e = BadAlloc"
  by (auto simp: Allocate_def split: if_splits dest: AllocateFallback_Inl)

lemma run_Cons_Inr:
  "run new_char (r # rs) a = Inr (ps, a2) \<longleftrightarrow>
     (\<exists>p a1 ps'. serve new_char r a = Inr (p, a1) \<and> run new_char rs a1 = Inr (ps', a2) \<and>
        ps = (p, request_bytes r) # ps')"
  by (auto split: sum.splits)

text \<open>
  C9. If \<open>new char[n]\<close> returns addresses that are multiples of the pointer size, then in
  every sequence of calls, started in any arena state, the alignment assertion of
  \<open>AllocateAligned\<close> never fails, and every address that \<open>AllocateAligned\<close> returns is a
  multiple of the pointer size, for every size asked for (0, 1, sizes beyond a block, and
  sizes for which \<open>bytes + slop\<close> wraps).
\<close>

theorem AllocateAligned_alignment:
  assumes "new_aligned new_char"
  shows "run new_char reqs a \<noteq> Inl AlignmentInvariantViolation \<and>
         (\<forall>ps a'. run new_char reqs a = Inr (ps, a') \<longrightarrow>
            (\<forall>i < length reqs. is_aligned_request (reqs ! i) \<longrightarrow>
               unat (fst (ps ! i)) mod nat pointer_size = 0))"
proof (induction reqs arbitrary: a)
  case Nil
  show ?case by simp
next
  case (Cons r rs)
  have s: "serve new_char r a \<noteq> Inl AlignmentInvariantViolation"
    using AllocateAligned_aligned_step(1) [OF assms] Allocate_Inl [of new_char _ a]
    by (cases r) auto
  have 1: "run new_char (r # rs) a \<noteq> Inl AlignmentInvariantViolation"
    using s Cons.IH by (auto split: sum.splits)
  have 2: "unat (fst (ps ! i)) mod nat pointer_size = 0"
    if run: "run new_char (r # rs) a = Inr (ps, a')" and i: "i < length (r # rs)"
      and al: "is_aligned_request ((r # rs) ! i)" for ps a' i
  proof -
    from run_Cons_Inr [THEN iffD1, OF run]
    obtain p a1 ps' where sv: "serve new_char r a = Inr (p, a1)"
      and rest: "run new_char rs a1 = Inr (ps', a')" and ps: "ps = (p, request_bytes r) # ps'"
      by blast
    show ?thesis
    proof (cases i)
      case 0
      with al obtain n where "r = ReqAllocateAligned n" by (cases r) auto
      with sv AllocateAligned_aligned_step(2) [OF assms] 0 ps show ?thesis
        by (simp add: pointer_size_def)
    next
      case (Suc j)
      with Cons.IH [of a1] rest i al ps show ?thesis by auto
    qed
  qed
  from 1 2 show ?case by blast
qed

lemma separate_sym: "separate r1 r2 \<Longrightarrow> separate r2 r1"
  by (auto simp: separate_def)

lemma separate_inside: "separate x b \<Longrightarrow> inside r b \<Longrightarrow> separate x r"
  unfolding separate_def inside_def unat_eq_0 [symmetric] by auto

lemma separate_inside_both: "separate b1 b2 \<Longrightarrow> inside r1 b1 \<Longrightarrow> inside r2 b2 \<Longrightarrow> separate r1 r2"
  by (meson separate_inside separate_sym)

lemma in_range_nat:
  assumes "unat p + unat n \<le> 2 ^ 64"
  shows "in_range x (p, n) \<longleftrightarrow> unat p \<le> unat x \<and> unat x < unat p + unat n"
proof (cases "p \<le> x")
  case True
  then have "unat (x - p) = unat x - unat p" by (simp add: unat_sub)
  with True show ?thesis by (auto simp: in_range_def word_le_nat_alt)
next
  case False
  then have lt: "unat x < unat p" by (simp add: word_le_nat_alt)
  have "unat (x - p) = 2 ^ 64 + unat x - unat p"
    using lt by (simp add: unat_sub_if_size word_size)
  moreover have "unat x < 2 ^ 64" using unsigned_less [of x] by simp
  ultimately show ?thesis using lt assms by (auto simp: in_range_def)
qed

lemma separate_no_overlap:
  assumes "separate r1 r2"
    and "snd r1 = 0 \<or> unat (fst r1) + unat (snd r1) \<le> 2 ^ 64"
    and "snd r2 = 0 \<or> unat (fst r2) + unat (snd r2) \<le> 2 ^ 64"
  shows "\<not> ranges_overlap r1 r2"
proof
  assume "ranges_overlap r1 r2"
  then obtain x where x: "in_range x r1" "in_range x r2" by (auto simp: ranges_overlap_def)
  then have nz: "snd r1 \<noteq> 0" "snd r2 \<noteq> 0" by (auto simp: in_range_def)
  with assms have w: "unat (fst r1) + unat (snd r1) \<le> 2 ^ 64" "unat (fst r2) + unat (snd r2) \<le> 2 ^ 64"
    by simp_all
  from x in_range_nat [OF w(1), of x] in_range_nat [OF w(2), of x]
  have "unat (fst r1) \<le> unat x" "unat x < unat (fst r1) + unat (snd r1)"
    "unat (fst r2) \<le> unat x" "unat x < unat (fst r2) + unat (snd r2)"
    by simp_all
  with assms(1) nz show False by (auto simp: separate_def)
qed

lemma arena_inv_snoc:
  assumes "arena_inv a rs"
    and "snd r = 0 \<or> (\<exists>b \<in> set (blocks a). inside r b)"
    and "separate r (alloc_ptr a, alloc_bytes_remaining a)"
    and "\<forall>r' \<in> set rs. separate r' r"
  shows "arena_inv a (rs @ [r])"
  using assms by (auto simp: arena_inv_def sorted_wrt_append)

lemma inside_trans: "inside r m \<Longrightarrow> inside m b \<Longrightarrow> inside r b"
  by (auto simp: inside_def)

lemma arena_inv_move_free:
  assumes "arena_inv a rs"
    and "inside (p, m) (alloc_ptr a, alloc_bytes_remaining a)"
  shows "arena_inv (a\<lparr>alloc_ptr := p, alloc_bytes_remaining := m\<rparr>) rs"
proof -
  have 1: "m = 0 \<or> (\<exists>b \<in> set (blocks a). inside (p, m) b)"
  proof (cases "alloc_bytes_remaining a = 0")
    case True
    with assms(2) have "unat m = 0" by (simp add: inside_def)
    then show ?thesis by (simp add: unat_eq_0)
  next
    case False
    with assms(1) obtain b where b: "b \<in> set (blocks a)"
      "inside (alloc_ptr a, alloc_bytes_remaining a) b" by (auto simp: arena_inv_def)
    from inside_trans [OF assms(2) b(2)] b(1) show ?thesis by blast
  qed
  have 2: "separate r (p, m)" if "r \<in> set rs" for r
    using assms that by (auto simp: arena_inv_def intro: separate_inside)
  from 1 2 assms(1) show ?thesis by (simp add: arena_inv_def)
qed

lemma free_region_bound:
  assumes "arena_inv a rs" and "alloc_bytes_remaining a \<noteq> 0"
  shows "unat (alloc_ptr a) + unat (alloc_bytes_remaining a) < 2 ^ 64"
proof -
  from assms obtain b where "b \<in> set (blocks a)" "inside (alloc_ptr a, alloc_bytes_remaining a) b"
    by (auto simp: arena_inv_def)
  moreover from this assms(1) have "unat (fst b) + unat (snd b) < 2 ^ 64"
    by (auto simp: arena_inv_def)
  ultimately show ?thesis by (simp add: inside_def)
qed

lemma carve_inv:
  assumes inv: "arena_inv a rs"
    and fit: "unat slop + unat n \<le> unat (alloc_bytes_remaining a)"
  shows "arena_inv (a\<lparr>alloc_ptr := alloc_ptr a + (n + slop),
                       alloc_bytes_remaining := alloc_bytes_remaining a - (n + slop)\<rparr>)
           (rs @ [(alloc_ptr a + slop, n)])"
proof (cases "alloc_bytes_remaining a = 0")
  case True
  with fit have z: "slop = 0" "n = 0" by (simp_all add: unat_eq_0)
  have "arena_inv a (rs @ [(alloc_ptr a, 0)])"
    by (rule arena_inv_snoc [OF inv]) (simp_all add: separate_def)
  moreover have "a\<lparr>alloc_ptr := alloc_ptr a, alloc_bytes_remaining := alloc_bytes_remaining a\<rparr> = a"
    by simp
  ultimately show ?thesis by (simp add: z)
next
  case False
  let ?P = "unat (alloc_ptr a)" and ?R = "unat (alloc_bytes_remaining a)"
  from free_region_bound [OF inv False] have bound: "?P + ?R < 2 ^ 64" .
  have ns: "unat (n + slop) = unat n + unat slop"
    using fit bound by (simp add: unat_add_lem [THEN iffD1])
  have pn: "unat (alloc_ptr a + (n + slop)) = ?P + (unat n + unat slop)"
    using fit bound ns by (simp add: unat_add_lem [THEN iffD1])
  have ps: "unat (alloc_ptr a + slop) = ?P + unat slop"
    using fit bound by (simp add: unat_add_lem [THEN iffD1])
  have "n + slop \<le> alloc_bytes_remaining a"
    using fit ns by (simp add: word_le_nat_alt)
  then have rm: "unat (alloc_bytes_remaining a - (n + slop)) = ?R - (unat n + unat slop)"
    using ns by (simp add: unat_sub)
  have r_in: "inside (alloc_ptr a + slop, n) (alloc_ptr a, alloc_bytes_remaining a)"
    using fit by (simp add: inside_def ps)
  have f_in: "inside (alloc_ptr a + (n + slop), alloc_bytes_remaining a - (n + slop))
      (alloc_ptr a, alloc_bytes_remaining a)"
    using fit by (simp add: inside_def pn rm)
  let ?a' = "a\<lparr>alloc_ptr := alloc_ptr a + (n + slop),
                alloc_bytes_remaining := alloc_bytes_remaining a - (n + slop)\<rparr>"
  have 1: "arena_inv ?a' rs" by (rule arena_inv_move_free [OF inv f_in])
  show ?thesis
  proof (rule arena_inv_snoc [OF 1])
    from inv False obtain b where b: "b \<in> set (blocks a)"
      "inside (alloc_ptr a, alloc_bytes_remaining a) b" by (auto simp: arena_inv_def)
    from inside_trans [OF r_in b(2)] b(1)
    show "snd (alloc_ptr a + slop, n) = 0 \<or>
        (\<exists>b \<in> set (blocks ?a'). inside (alloc_ptr a + slop, n) b)"
      by auto
    show "\<forall>r' \<in> set rs. separate r' (alloc_ptr a + slop, n)"
      using inv r_in by (auto simp: arena_inv_def intro: separate_inside)
    show "separate (alloc_ptr a + slop, n) (alloc_ptr ?a', alloc_bytes_remaining ?a')"
      by (simp add: separate_def ps pn)
  qed
qed

lemma arena_inv_set_free:
  assumes "arena_inv a rs"
    and "m = 0 \<or> (\<exists>b \<in> set (blocks a). inside (q, m) b)"
    and "\<forall>r \<in> set rs. separate r (q, m)"
  shows "arena_inv (a\<lparr>alloc_ptr := q, alloc_bytes_remaining := m\<rparr>) rs"
  using assms by (simp add: arena_inv_def)

lemma new_block_facts:
  assumes inv: "arena_inv a rs" and ok: "new_ok new_char" and nw: "new_char (blocks a) m = Some p"
  shows "arena_inv (a\<lparr>blocks_memory := x, blocks := blocks a @ [(p, m)]\<rparr>) rs"
    and "\<forall>r \<in> set rs. separate r (p, m)"
    and "separate (alloc_ptr a, alloc_bytes_remaining a) (p, m)"
    and "unat p + unat m < 2 ^ 64"
proof -
  from ok nw have fresh: "\<forall>b \<in> set (blocks a). separate (p, m) b"
    and bound: "unat p + unat m < 2 ^ 64"
    by (auto simp: new_ok_def)
  show "unat p + unat m < 2 ^ 64" by (rule bound)
  show "arena_inv (a\<lparr>blocks_memory := x, blocks := blocks a @ [(p, m)]\<rparr>) rs"
    using inv bound by (auto simp: arena_inv_def)
  show "\<forall>r \<in> set rs. separate r (p, m)"
  proof
    fix r assume "r \<in> set rs"
    with inv have "snd r = 0 \<or> (\<exists>b \<in> set (blocks a). inside r b)" by (simp add: arena_inv_def)
    then show "separate r (p, m)"
    proof
      assume "snd r = 0" then show ?thesis by (simp add: separate_def)
    next
      assume "\<exists>b \<in> set (blocks a). inside r b"
      then obtain b where "b \<in> set (blocks a)" "inside r b" by blast
      with fresh have "separate (p, m) r" by (auto intro: separate_inside)
      then show ?thesis by (rule separate_sym)
    qed
  qed
  show "separate (alloc_ptr a, alloc_bytes_remaining a) (p, m)"
  proof (cases "alloc_bytes_remaining a = 0")
    case True
    then show ?thesis by (simp add: separate_def)
  next
    case False
    with inv obtain b where "b \<in> set (blocks a)" "inside (alloc_ptr a, alloc_bytes_remaining a) b"
      by (auto simp: arena_inv_def)
    with fresh have "separate (p, m) (alloc_ptr a, alloc_bytes_remaining a)"
      by (auto intro: separate_inside)
    then show ?thesis by (rule separate_sym)
  qed
qed

lemma fallback_large_inv:
  assumes inv: "arena_inv a rs" and ok: "new_ok new_char" and nw: "new_char (blocks a) n = Some p"
  shows "arena_inv (a\<lparr>blocks_memory := blocks_memory a + n, blocks := blocks a @ [(p, n)]\<rparr>)
           (rs @ [(p, n)])"
proof -
  note f = new_block_facts [OF inv ok nw]
  show ?thesis
  proof (rule arena_inv_snoc [OF f(1)])
    show "snd (p, n) = 0 \<or> (\<exists>b \<in> set (blocks (a\<lparr>blocks_memory := blocks_memory a + n,
        blocks := blocks a @ [(p, n)]\<rparr>)). inside (p, n) b)"
      by (auto simp: inside_def)
    show "separate (p, n) (alloc_ptr (a\<lparr>blocks_memory := blocks_memory a + n,
        blocks := blocks a @ [(p, n)]\<rparr>), alloc_bytes_remaining (a\<lparr>blocks_memory := blocks_memory a + n,
        blocks := blocks a @ [(p, n)]\<rparr>))"
      using f(3) by (simp add: separate_sym)
    show "\<forall>r' \<in> set rs. separate r' (p, n)" by (rule f(2))
  qed
qed

lemma fallback_small_inv:
  assumes inv: "arena_inv a rs" and ok: "new_ok new_char" and nw: "new_char (blocks a) 4096 = Some p"
    and small: "unat n \<le> 1024"
  shows "arena_inv (a\<lparr>blocks_memory := blocks_memory a + 4096, blocks := blocks a @ [(p, 4096)],
                       alloc_ptr := p + n, alloc_bytes_remaining := 4096 - n\<rparr>)
           (rs @ [(p, n), (alloc_ptr a, alloc_bytes_remaining a)])"
proof -
  note f = new_block_facts [OF inv ok nw]
  let ?a1 = "a\<lparr>blocks_memory := blocks_memory a + 4096, blocks := blocks a @ [(p, 4096)]\<rparr>"
  let ?a2 = "?a1\<lparr>alloc_ptr := p + n, alloc_bytes_remaining := 4096 - n\<rparr>"
  have bound: "unat p + 4096 < 2 ^ 64" using f(4) by simp
  have pn: "unat (p + n) = unat p + unat n"
    using bound small by (simp add: unat_add_lem [THEN iffD1])
  have "n \<le> 4096" using small by (simp add: word_le_nat_alt)
  then have rm: "unat (4096 - n) = 4096 - unat n" by (simp add: unat_sub)
  have in_new: "inside (p + n, 4096 - n) (p, 4096)" "inside (p, n) (p, 4096)"
    using small by (simp_all add: inside_def pn rm)
  have 2: "arena_inv ?a2 rs"
  proof (rule arena_inv_set_free [OF f(1)])
    show "4096 - n = 0 \<or> (\<exists>b \<in> set (blocks ?a1). inside (p + n, 4096 - n) b)"
      using in_new(1) by auto
    show "\<forall>r \<in> set rs. separate r (p + n, 4096 - n)"
      using f(2) in_new(1) by (auto intro: separate_inside)
  qed
  have 3: "arena_inv ?a2 (rs @ [(p, n)])"
  proof (rule arena_inv_snoc [OF 2])
    show "snd (p, n) = 0 \<or> (\<exists>b \<in> set (blocks ?a2). inside (p, n) b)"
      using in_new(2) by auto
    show "separate (p, n) (alloc_ptr ?a2, alloc_bytes_remaining ?a2)"
      by (simp add: separate_def pn)
    show "\<forall>r' \<in> set rs. separate r' (p, n)"
      using f(2) in_new(2) by (auto intro: separate_inside)
  qed
  have "arena_inv ?a2 ((rs @ [(p, n)]) @ [(alloc_ptr a, alloc_bytes_remaining a)])"
  proof (rule arena_inv_snoc [OF 3])
    show "snd (alloc_ptr a, alloc_bytes_remaining a) = 0 \<or>
        (\<exists>b \<in> set (blocks ?a2). inside (alloc_ptr a, alloc_bytes_remaining a) b)"
      using inv by (auto simp: arena_inv_def)
    show "separate (alloc_ptr a, alloc_bytes_remaining a) (alloc_ptr ?a2, alloc_bytes_remaining ?a2)"
      using f(3) in_new(1) by (auto intro: separate_inside)
    have "separate (p, n) (alloc_ptr a, alloc_bytes_remaining a)"
      using f(3) in_new(2) by (auto intro: separate_inside separate_sym)
    moreover have "\<forall>r \<in> set rs. separate r (alloc_ptr a, alloc_bytes_remaining a)"
      using inv by (simp add: arena_inv_def)
    ultimately show "\<forall>r' \<in> set (rs @ [(p, n)]). separate r' (alloc_ptr a, alloc_bytes_remaining a)"
      by auto
  qed
  then show ?thesis by simp
qed

lemma arena_inv_butlast: "arena_inv a (rs @ [r]) \<Longrightarrow> arena_inv a rs"
  by (auto simp: arena_inv_def sorted_wrt_append)

lemma alignment_slop_le: "unat (alignment_slop a) \<le> 7"
proof (cases "alloc_ptr a AND 7 = 0")
  case True
  then show ?thesis by (simp add: alignment_slop_def)
next
  case False
  let ?m = "alloc_ptr a AND 7"
  have m: "unat ?m = unat (alloc_ptr a) mod 8" by (rule unat_and_7)
  then have "unat ?m < 8" by simp
  then have "?m \<le> 8" by (simp add: word_le_nat_alt)
  then have "unat (8 - ?m) = 8 - unat ?m" by (simp add: unat_sub)
  moreover have "unat ?m \<noteq> 0" using False by (simp add: unat_eq_0)
  ultimately show ?thesis using False by (simp add: alignment_slop_def)
qed

lemma Allocate_cases:
  assumes "Allocate new_char n a = Inr (p, a')"
  shows "(fits (ReqAllocate n) a \<and> p = alloc_ptr a \<and>
            a' = a\<lparr>alloc_ptr := alloc_ptr a + n,
                   alloc_bytes_remaining := alloc_bytes_remaining a - n\<rparr>) \<or>
         (\<not> fits (ReqAllocate n) a \<and> AllocateFallback new_char n a = Inr (p, a'))"
  using assms by (auto simp: Allocate_def split: if_splits)

lemma AllocateAligned_cases:
  assumes "AllocateAligned new_char n a = Inr (p, a')"
  shows "(fits (ReqAllocateAligned n) a \<and> p = alloc_ptr a + alignment_slop a \<and>
            a' = a\<lparr>alloc_ptr := alloc_ptr a + (n + alignment_slop a),
                   alloc_bytes_remaining := alloc_bytes_remaining a - (n + alignment_slop a)\<rparr>) \<or>
         (\<not> fits (ReqAllocateAligned n) a \<and> AllocateFallback new_char n a = Inr (p, a'))"
  using assms
  by (auto simp: AllocateAligned_def pointer_size_def Let_def alignment_slop_def
      split: if_splits sum.splits)

lemma fallback_inv:
  assumes inv: "arena_inv a rs" and ok: "new_ok new_char"
    and fb: "AllocateFallback new_char n a = Inr (p, a')"
  shows "arena_inv a' (rs @ [(p, n)])"
proof (cases "1024 < unat n")
  case True
  with fb have "new_char (blocks a) n = Some p"
    "a' = a\<lparr>blocks_memory := blocks_memory a + n, blocks := blocks a @ [(p, n)]\<rparr>"
    by (simp_all add: AllocateFallback_large)
  with fallback_large_inv [OF inv ok] show ?thesis by simp
next
  case False
  then have s: "unat n \<le> 1024" by simp
  with fb have nw: "new_char (blocks a) 4096 = Some p"
    and a': "a' = a\<lparr>blocks_memory := blocks_memory a + 4096, blocks := blocks a @ [(p, 4096)],
             alloc_ptr := p + n, alloc_bytes_remaining := 4096 - n\<rparr>"
    by (simp_all add: AllocateFallback_small)
  from fallback_small_inv [OF inv ok nw s]
  have "arena_inv a' ((rs @ [(p, n)]) @ [(alloc_ptr a, alloc_bytes_remaining a)])"
    by (simp add: a')
  then show ?thesis by (rule arena_inv_butlast)
qed

lemma serve_inv:
  assumes inv: "arena_inv a rs" and ok: "new_ok new_char" and nw: "no_wrap r"
    and sv: "serve new_char r a = Inr (p, a')"
  shows "arena_inv a' (rs @ [(p, request_bytes r)])"
proof (cases r)
  case (ReqAllocate n)
  with sv have "Allocate new_char n a = Inr (p, a')" by simp
  from Allocate_cases [OF this] show ?thesis
  proof
    assume f: "fits (ReqAllocate n) a \<and> p = alloc_ptr a \<and>
       a' = a\<lparr>alloc_ptr := alloc_ptr a + n, alloc_bytes_remaining := alloc_bytes_remaining a - n\<rparr>"
    then have "unat (0 :: size_t) + unat n \<le> unat (alloc_bytes_remaining a)"
      by (simp add: word_le_nat_alt)
    from carve_inv [OF inv this] f ReqAllocate show ?thesis by simp
  next
    assume "\<not> fits (ReqAllocate n) a \<and> AllocateFallback new_char n a = Inr (p, a')"
    with fallback_inv [OF inv ok] ReqAllocate show ?thesis by simp
  qed
next
  case (ReqAllocateAligned n)
  with sv have "AllocateAligned new_char n a = Inr (p, a')" by simp
  from AllocateAligned_cases [OF this] show ?thesis
  proof
    assume f: "fits (ReqAllocateAligned n) a \<and> p = alloc_ptr a + alignment_slop a \<and>
       a' = a\<lparr>alloc_ptr := alloc_ptr a + (n + alignment_slop a),
              alloc_bytes_remaining := alloc_bytes_remaining a - (n + alignment_slop a)\<rparr>"
    have "unat n + unat (alignment_slop a) < 2 ^ 64"
      using nw ReqAllocateAligned alignment_slop_le [of a] by simp
    then have "unat (n + alignment_slop a) = unat n + unat (alignment_slop a)"
      by (simp add: unat_add_lem [THEN iffD1])
    with f have "unat (alignment_slop a) + unat n \<le> unat (alloc_bytes_remaining a)"
      by (simp add: word_le_nat_alt)
    from carve_inv [OF inv this] f ReqAllocateAligned show ?thesis by simp
  next
    assume "\<not> fits (ReqAllocateAligned n) a \<and> AllocateFallback new_char n a = Inr (p, a')"
    with fallback_inv [OF inv ok] ReqAllocateAligned show ?thesis by simp
  qed
qed

lemma tracked_Nil [simp]: "tracked [] [] = []"
  by (simp add: tracked_def)

lemma tracked_Cons [simp]:
  "tracked (r # reqs) (pr # ps) = (fst pr, if no_wrap r then snd pr else 0) # tracked reqs ps"
  by (simp add: tracked_def)

lemma run_length: "run new_char reqs a = Inr (ps, a') \<Longrightarrow> length ps = length reqs"
proof (induction reqs arbitrary: a ps)
  case Nil
  then show ?case by simp
next
  case (Cons r reqs)
  from run_Cons_Inr [THEN iffD1, OF Cons.prems]
  obtain p a1 ps' where rest: "run new_char reqs a1 = Inr (ps', a')"
    and ps: "ps = (p, request_bytes r) # ps'" by blast
  from Cons.IH [OF rest] ps show ?case by simp
qed

lemma tracked_nth:
  "length ps = length reqs \<Longrightarrow> i < length reqs \<Longrightarrow> no_wrap (reqs ! i) \<Longrightarrow>
   tracked reqs ps ! i = ps ! i"
  by (simp add: tracked_def)

lemma length_tracked: "length ps = length reqs \<Longrightarrow> length (tracked reqs ps) = length reqs"
  by (simp add: tracked_def)

lemma arena_inv_snoc_empty: "arena_inv a rs \<Longrightarrow> arena_inv a (rs @ [(p, 0)])"
  by (rule arena_inv_snoc) (simp_all add: separate_def)

lemma serve_inv_tracked:
  assumes inv: "arena_inv a rs" and ok: "new_ok new_char"
    and sv: "serve new_char r a = Inr (p, a')"
  shows "arena_inv a' (rs @ [(p, if no_wrap r then request_bytes r else 0)])"
proof (cases "no_wrap r")
  case True
  with serve_inv [OF inv ok True sv] show ?thesis by simp
next
  case False
  then obtain n where r: "r = ReqAllocateAligned n" by (cases r) auto
  with sv have "AllocateAligned new_char n a = Inr (p, a')" by simp
  from AllocateAligned_cases [OF this] have "arena_inv a' rs"
  proof
    let ?needed = "n + alignment_slop a"
    assume f: "fits (ReqAllocateAligned n) a \<and> p = alloc_ptr a + alignment_slop a \<and>
       a' = a\<lparr>alloc_ptr := alloc_ptr a + ?needed,
              alloc_bytes_remaining := alloc_bytes_remaining a - ?needed\<rparr>"
    then have "unat (0 :: size_t) + unat ?needed \<le> unat (alloc_bytes_remaining a)"
      by (simp add: word_le_nat_alt)
    from carve_inv [OF inv this] f have "arena_inv a' (rs @ [(alloc_ptr a, ?needed)])" by simp
    then show ?thesis by (rule arena_inv_butlast)
  next
    assume "\<not> fits (ReqAllocateAligned n) a \<and> AllocateFallback new_char n a = Inr (p, a')"
    with fallback_inv [OF inv ok] have "arena_inv a' (rs @ [(p, n)])" by simp
    then show ?thesis by (rule arena_inv_butlast)
  qed
  with False show ?thesis by (simp add: arena_inv_snoc_empty)
qed

lemma run_inv_tracked:
  "run new_char reqs a = Inr (ps, a') \<Longrightarrow> arena_inv a rs \<Longrightarrow> new_ok new_char \<Longrightarrow>
   arena_inv a' (rs @ tracked reqs ps)"
proof (induction reqs arbitrary: a rs ps)
  case Nil
  then show ?case by simp
next
  case (Cons r reqs)
  from run_Cons_Inr [THEN iffD1, OF Cons.prems(1)]
  obtain p a1 ps' where sv: "serve new_char r a = Inr (p, a1)"
    and rest: "run new_char reqs a1 = Inr (ps', a')" and ps: "ps = (p, request_bytes r) # ps'"
    by blast
  from serve_inv_tracked [OF Cons.prems(2,3) sv]
  have "arena_inv a1 (rs @ [(p, if no_wrap r then request_bytes r else 0)])" .
  from Cons.IH [OF rest this Cons.prems(3)] ps show ?case by (cases "no_wrap r") simp_all
qed

lemma arena_inv_init: "arena_inv Arena_init []"
  by (simp add: arena_inv_def Arena_init_def)

lemma arena_inv_no_overlap:
  assumes "arena_inv a rs" and "i < j" and "j < length rs"
  shows "\<not> ranges_overlap (rs ! i) (rs ! j)"
proof -
  have w: "snd r = 0 \<or> unat (fst r) + unat (snd r) \<le> 2 ^ 64" if "r \<in> set rs" for r
  proof -
    from that assms(1) have "snd r = 0 \<or> (\<exists>b \<in> set (blocks a). inside r b)"
      by (simp add: arena_inv_def)
    then show ?thesis
    proof
      assume "snd r = 0" then show ?thesis by simp
    next
      assume "\<exists>b \<in> set (blocks a). inside r b"
      then obtain b where b: "b \<in> set (blocks a)" "inside r b" by blast
      with assms(1) have "unat (fst b) + unat (snd b) < 2 ^ 64" by (simp add: arena_inv_def)
      with b(2) show ?thesis by (simp add: inside_def)
    qed
  qed
  from assms have "separate (rs ! i) (rs ! j)"
    by (simp add: arena_inv_def sorted_wrt_iff_nth_less)
  moreover have "rs ! i \<in> set rs" "rs ! j \<in> set rs" using assms by simp_all
  ultimately show ?thesis using w by (intro separate_no_overlap) auto
qed

lemma AllocateFallback_blocks:
  "AllocateFallback new_char n a = Inr (p, a') \<Longrightarrow> prefix (blocks a) (blocks a')"
  by (cases "1024 < unat n") (auto simp: AllocateFallback_large AllocateFallback_small)

lemma serve_blocks: "serve new_char r a = Inr (p, a') \<Longrightarrow> prefix (blocks a) (blocks a')"
proof (cases r)
  case (ReqAllocate n)
  assume "serve new_char r a = Inr (p, a')"
  with ReqAllocate Allocate_cases [of new_char n a p a'] show ?thesis
    by (auto dest: AllocateFallback_blocks)
next
  case (ReqAllocateAligned n)
  assume "serve new_char r a = Inr (p, a')"
  with ReqAllocateAligned AllocateAligned_cases [of new_char n a p a'] show ?thesis
    by (auto dest: AllocateFallback_blocks)
qed

lemma run_blocks: "run new_char reqs a = Inr (ps, a') \<Longrightarrow> prefix (blocks a) (blocks a')"
proof (induction reqs arbitrary: a ps)
  case Nil
  then show ?case by simp
next
  case (Cons r reqs)
  from run_Cons_Inr [THEN iffD1, OF Cons.prems]
  obtain p a1 ps' where sv: "serve new_char r a = Inr (p, a1)"
    and rest: "run new_char reqs a1 = Inr (ps', a')" by blast
  from serve_blocks [OF sv] Cons.IH [OF rest] show ?case by (rule prefix_order.trans)
qed

text \<open>
  The ranges of a run on a new arena. The ranges returned to the requests whose
  \<open>bytes + 7\<close> does not wrap (every \<open>Allocate\<close>, and every \<open>AllocateAligned\<close> of at most
  \<open>2^64 - 8\<close> bytes) are pairwise disjoint; each of them that is not empty lies inside a
  block the arena holds, and later calls only append blocks, so the range stays where it
  is and is never given out again.
\<close>

lemma arena_ranges_disjoint_valid:
  assumes "new_ok new_char" and "run new_char reqs Arena_init = Inr (ps, a)"
  shows "(\<forall>i j. i < j \<and> j < length reqs \<and> no_wrap (reqs ! i) \<and> no_wrap (reqs ! j) \<longrightarrow>
            \<not> ranges_overlap (ps ! i) (ps ! j)) \<and>
         (\<forall>i < length reqs. no_wrap (reqs ! i) \<longrightarrow>
            snd (ps ! i) = 0 \<or> (\<exists>b \<in> set (blocks a). inside (ps ! i) b)) \<and>
         (\<forall>later ps' a'. run new_char later a = Inr (ps', a') \<longrightarrow> prefix (blocks a) (blocks a'))"
proof -
  note len = run_length [OF assms(2)]
  from run_inv_tracked [OF assms(2) arena_inv_init assms(1)]
  have inv: "arena_inv a (tracked reqs ps)" by simp
  have 1: "\<not> ranges_overlap (ps ! i) (ps ! j)"
    if "i < j" "j < length reqs" "no_wrap (reqs ! i)" "no_wrap (reqs ! j)" for i j
  proof -
    from that have "tracked reqs ps ! i = ps ! i" "tracked reqs ps ! j = ps ! j"
      by (simp_all add: tracked_nth [OF len])
    with arena_inv_no_overlap [OF inv that(1)] that(2) length_tracked [OF len]
    show ?thesis by simp
  qed
  have 2: "snd (ps ! i) = 0 \<or> (\<exists>b \<in> set (blocks a). inside (ps ! i) b)"
    if "i < length reqs" "no_wrap (reqs ! i)" for i
  proof -
    from that have "tracked reqs ps ! i = ps ! i" by (simp add: tracked_nth [OF len])
    moreover from that have "tracked reqs ps ! i \<in> set (tracked reqs ps)"
      by (simp add: length_tracked [OF len])
    ultimately show ?thesis using inv by (auto simp: arena_inv_def)
  qed
  from 1 2 run_blocks show ?thesis by blast
qed

lemma ranges_overlap_sym: "ranges_overlap r1 r2 \<Longrightarrow> ranges_overlap r2 r1"
  by (auto simp: ranges_overlap_def)

lemma serve_fallback:
  assumes "serve new_char r a = Inr (p, a1)" and "\<not> fits r a"
  shows "AllocateFallback new_char (request_bytes r) a = Inr (p, a1)"
proof (cases r)
  case (ReqAllocate n)
  with assms Allocate_cases [of new_char n a p a1] show ?thesis by auto
next
  case (ReqAllocateAligned n)
  with assms AllocateAligned_cases [of new_char n a p a1] show ?thesis by auto
qed

lemma arena_inv_others_disjoint:
  assumes "arena_inv a (rs @ [r] @ ps)" and "r' \<in> set rs \<union> set ps"
  shows "\<not> ranges_overlap r' r"
proof -
  let ?all = "rs @ [r] @ ps"
  have at: "?all ! length rs = r" by simp
  from assms(2) show ?thesis
  proof
    assume "r' \<in> set rs"
    then obtain i where i: "i < length rs" "rs ! i = r'" by (auto simp: in_set_conv_nth)
    then have "?all ! i = r'" by (simp add: nth_append)
    with arena_inv_no_overlap [OF assms(1), of i "length rs"] i(1) at show ?thesis by simp
  next
    assume "r' \<in> set ps"
    then obtain k where k: "k < length ps" "ps ! k = r'" by (auto simp: in_set_conv_nth)
    then have "?all ! (length rs + 1 + k) = r'" by (simp add: nth_append)
    with arena_inv_no_overlap [OF assms(1), of "length rs" "length rs + 1 + k"] k(1) at
    have "\<not> ranges_overlap r r'" by simp
    then show ?thesis by (auto dest: ranges_overlap_sym)
  qed
qed

lemma new_block_no_overlap:
  assumes inv: "arena_inv a rs" and ok: "new_ok new_char" and nw: "new_char (blocks a) m = Some p"
  shows "\<forall>b \<in> set (blocks a). \<not> ranges_overlap b (p, m)"
proof
  fix b assume b: "b \<in> set (blocks a)"
  from ok nw have fresh: "\<forall>b \<in> set (blocks a). separate (p, m) b"
    and bound: "unat p + unat m < 2 ^ 64"
    by (auto simp: new_ok_def)
  from b inv have "unat (fst b) + unat (snd b) < 2 ^ 64" by (simp add: arena_inv_def)
  moreover from b fresh have "separate b (p, m)" by (auto intro: separate_sym)
  ultimately show "\<not> ranges_overlap b (p, m)"
    using bound by (intro separate_no_overlap) simp_all
qed

lemma tracked_others_disjoint:
  assumes "arena_inv a (tracked earlier rs @ [r] @ tracked later ps)"
    and "length rs = length earlier" and "length ps = length later"
  shows "(\<forall>i < length earlier. no_wrap (earlier ! i) \<longrightarrow> \<not> ranges_overlap (rs ! i) r) \<and>
         (\<forall>i < length later. no_wrap (later ! i) \<longrightarrow> \<not> ranges_overlap (ps ! i) r)"
proof -
  have "\<not> ranges_overlap (rs ! i) r" if "i < length earlier" "no_wrap (earlier ! i)" for i
  proof -
    from that have "tracked earlier rs ! i = rs ! i" by (simp add: tracked_nth [OF assms(2)])
    moreover from that have "tracked earlier rs ! i \<in> set (tracked earlier rs)"
      by (simp add: length_tracked [OF assms(2)])
    ultimately show ?thesis using arena_inv_others_disjoint [OF assms(1), of "rs ! i"] by simp
  qed
  moreover have "\<not> ranges_overlap (ps ! i) r" if "i < length later" "no_wrap (later ! i)" for i
  proof -
    from that have "tracked later ps ! i = ps ! i" by (simp add: tracked_nth [OF assms(3)])
    moreover from that have "tracked later ps ! i \<in> set (tracked later ps)"
      by (simp add: length_tracked [OF assms(3)])
    ultimately show ?thesis using arena_inv_others_disjoint [OF assms(1), of "ps ! i"] by simp
  qed
  ultimately show ?thesis by blast
qed

text \<open>
  C8 (amended). When a request of more than 1024 bytes is not served from the active block
  (it does not fit the remaining bytes), the arena gets a new block of exactly that size
  from \<open>new\<close>, returns its address, and leaves the cursor and the remaining-byte count of
  the active block as they were; the block shares no byte with an older block, nor with
  the range returned, before or after, to any request whose \<open>bytes + 7\<close> does not wrap.
\<close>

theorem large_request_dedicated_block:
  assumes "new_ok new_char"
    and "run new_char earlier Arena_init = Inr (rs, a)"
    and "1024 < unat (request_bytes r)" and "\<not> fits r a"
    and "serve new_char r a = Inr (p, a1)"
    and "run new_char later a1 = Inr (ps, a2)"
  shows "blocks a1 = blocks a @ [(p, request_bytes r)] \<and>
         alloc_ptr a1 = alloc_ptr a \<and> alloc_bytes_remaining a1 = alloc_bytes_remaining a \<and>
         (\<forall>b \<in> set (blocks a). \<not> ranges_overlap b (p, request_bytes r)) \<and>
         (\<forall>i < length earlier. no_wrap (earlier ! i) \<longrightarrow>
            \<not> ranges_overlap (rs ! i) (p, request_bytes r)) \<and>
         (\<forall>i < length later. no_wrap (later ! i) \<longrightarrow>
            \<not> ranges_overlap (ps ! i) (p, request_bytes r))"
proof -
  let ?n = "request_bytes r"
  from run_inv_tracked [OF assms(2) arena_inv_init assms(1)]
  have inv: "arena_inv a (tracked earlier rs)" by simp
  from serve_fallback [OF assms(5,4)] have fb: "AllocateFallback new_char ?n a = Inr (p, a1)" .
  with assms(3) have nw: "new_char (blocks a) ?n = Some p"
    and a1: "a1 = a\<lparr>blocks_memory := blocks_memory a + ?n, blocks := blocks a @ [(p, ?n)]\<rparr>"
    by (simp_all add: AllocateFallback_large)
  from fallback_inv [OF inv assms(1) fb] have "arena_inv a1 (tracked earlier rs @ [(p, ?n)])" .
  from run_inv_tracked [OF assms(6) this assms(1)]
  have all: "arena_inv a2 (tracked earlier rs @ [(p, ?n)] @ tracked later ps)"
    by simp
  have blk: "\<forall>b \<in> set (blocks a). \<not> ranges_overlap b (p, ?n)"
    by (rule new_block_no_overlap [OF inv assms(1) nw])
  from a1 blk tracked_others_disjoint [OF all run_length [OF assms(2)] run_length [OF assms(6)]]
  show ?thesis by simp
qed

text \<open>
  The three ways a call is served: from the free part of the active block (the address
  returned is the cursor plus a padding of at most 7 bytes, and the cursor moves by an
  amount that fits the free part), by a block of its own, or by a new active block.
\<close>

lemma serve_cases:
  assumes "serve new_char r s = Inr (x, s')"
  shows "(\<exists>d m. unat d \<le> 7 \<and> m \<le> alloc_bytes_remaining s \<and> x = alloc_ptr s + d \<and>
            s' = s\<lparr>alloc_ptr := alloc_ptr s + m,
                   alloc_bytes_remaining := alloc_bytes_remaining s - m\<rparr>) \<or>
         (1024 < unat (request_bytes r) \<and> new_char (blocks s) (request_bytes r) = Some x \<and>
            s' = s\<lparr>blocks_memory := blocks_memory s + request_bytes r,
                   blocks := blocks s @ [(x, request_bytes r)]\<rparr>) \<or>
         (unat (request_bytes r) \<le> 1024 \<and> new_char (blocks s) 4096 = Some x \<and>
            s' = s\<lparr>blocks_memory := blocks_memory s + 4096, blocks := blocks s @ [(x, 4096)],
                   alloc_ptr := x + request_bytes r,
                   alloc_bytes_remaining := 4096 - request_bytes r\<rparr>)"
proof (cases "fits r s")
  case True
  show ?thesis
  proof (cases r)
    case (ReqAllocate n)
    with assms True Allocate_cases [of new_char n s x s']
    have "unat (0 :: size_t) \<le> 7 \<and> n \<le> alloc_bytes_remaining s \<and> x = alloc_ptr s + 0 \<and>
        s' = s\<lparr>alloc_ptr := alloc_ptr s + n,
               alloc_bytes_remaining := alloc_bytes_remaining s - n\<rparr>"
      by auto
    then show ?thesis by blast
  next
    case (ReqAllocateAligned n)
    with assms True AllocateAligned_cases [of new_char n s x s'] alignment_slop_le [of s]
    have "unat (alignment_slop s) \<le> 7 \<and> n + alignment_slop s \<le> alloc_bytes_remaining s \<and>
        x = alloc_ptr s + alignment_slop s \<and>
        s' = s\<lparr>alloc_ptr := alloc_ptr s + (n + alignment_slop s),
               alloc_bytes_remaining := alloc_bytes_remaining s - (n + alignment_slop s)\<rparr>"
      by auto
    then show ?thesis by blast
  qed
next
  case False
  from serve_fallback [OF assms False]
  have fb: "AllocateFallback new_char (request_bytes r) s = Inr (x, s')" .
  show ?thesis
  proof (cases "1024 < unat (request_bytes r)")
    case True
    with fb show ?thesis by (simp add: AllocateFallback_large)
  next
    case False
    then have "unat (request_bytes r) \<le> 1024" by simp
    with fb show ?thesis by (simp add: AllocateFallback_small)
  qed
qed

lemma active_block_carve:
  assumes "active_block s b" and "m \<le> alloc_bytes_remaining s"
  shows "active_block (s\<lparr>alloc_ptr := alloc_ptr s + m,
                          alloc_bytes_remaining := alloc_bytes_remaining s - m\<rparr>) b"
proof -
  from assms(2) have le: "unat m \<le> unat (alloc_bytes_remaining s)" by (simp add: word_le_nat_alt)
  from assms(1) have bound: "unat (alloc_ptr s) + unat (alloc_bytes_remaining s) < 2 ^ 64"
    by (simp add: active_block_def)
  with le have "unat (alloc_ptr s) + unat m < 2 ^ 64" by simp
  then have 1: "unat (alloc_ptr s + m) = unat (alloc_ptr s) + unat m"
    by (simp add: unat_add_lem [THEN iffD1])
  from assms(2) have 2: "unat (alloc_bytes_remaining s - m) = unat (alloc_bytes_remaining s) - unat m"
    by (simp add: unat_sub)
  from assms(1) le 1 2 show ?thesis by (simp add: active_block_def)
qed

lemma active_block_small:
  assumes "new_ok new_char" and "new_char (blocks s) 4096 = Some x" and "unat n \<le> 1024"
  shows "active_block (s\<lparr>blocks_memory := y, blocks := blocks s @ [(x, 4096)],
                         alloc_ptr := x + n, alloc_bytes_remaining := 4096 - n\<rparr>) (x, 4096)"
proof -
  from assms(1,2) have bound: "unat x + unat (4096 :: size_t) < 2 ^ 64"
    unfolding new_ok_def by blast
  then have b: "unat x + 4096 < 2 ^ 64" by simp
  with assms(3) have "unat x + unat n < 2 ^ 64" by simp
  then have 1: "unat (x + n) = unat x + unat n" by (simp add: unat_add_lem [THEN iffD1])
  from assms(3) have "n \<le> 4096" by (simp add: word_le_nat_alt)
  then have 2: "unat (4096 - n) = 4096 - unat n" by (simp add: unat_sub)
  from b 1 2 assms(3) show ?thesis by (simp add: active_block_def)
qed

lemma serve_cursor_inv:
  assumes "new_ok new_char" and "serve new_char r s = Inr (x, s')" and "cursor_inv s"
  shows "cursor_inv s'"
  using serve_cases [OF assms(2)]
proof (elim disjE exE conjE)
  fix d m
  assume m: "m \<le> alloc_bytes_remaining s"
    and s': "s' = s\<lparr>alloc_ptr := alloc_ptr s + m,
                     alloc_bytes_remaining := alloc_bytes_remaining s - m\<rparr>"
  from assms(3) show ?thesis unfolding cursor_inv_def
  proof
    assume z: "alloc_ptr s = 0 \<and> alloc_bytes_remaining s = 0"
    with m have "m = 0" by simp
    with z s' show "(alloc_ptr s' = 0 \<and> alloc_bytes_remaining s' = 0) \<or> (\<exists>b. active_block s' b)"
      by simp
  next
    assume "\<exists>b. active_block s b"
    then obtain b where "active_block s b" ..
    from active_block_carve [OF this m] s'
    show "(alloc_ptr s' = 0 \<and> alloc_bytes_remaining s' = 0) \<or> (\<exists>b. active_block s' b)"
      by blast
  qed
next
  assume s': "s' = s\<lparr>blocks_memory := blocks_memory s + request_bytes r,
                   blocks := blocks s @ [(x, request_bytes r)]\<rparr>"
  with assms(3) show ?thesis by (auto simp: cursor_inv_def active_block_def)
next
  assume "unat (request_bytes r) \<le> 1024" "new_char (blocks s) 4096 = Some x"
    and s': "s' = s\<lparr>blocks_memory := blocks_memory s + 4096, blocks := blocks s @ [(x, 4096)],
                   alloc_ptr := x + request_bytes r,
                   alloc_bytes_remaining := 4096 - request_bytes r\<rparr>"
  with active_block_small [OF assms(1), of s x "request_bytes r"]
  show ?thesis unfolding cursor_inv_def by blast
qed

lemma run_cursor_inv:
  assumes "new_ok new_char"
  shows "run new_char reqs s = Inr (ps, s') \<Longrightarrow> cursor_inv s \<Longrightarrow> cursor_inv s'"
proof (induction reqs arbitrary: s ps)
  case Nil
  then show ?case by simp
next
  case (Cons r reqs)
  from run_Cons_Inr [THEN iffD1, OF Cons.prems(1)]
  obtain p s1 ps' where sv: "serve new_char r s = Inr (p, s1)"
    and rest: "run new_char reqs s1 = Inr (ps', s')" by blast
  from Cons.IH [OF rest serve_cursor_inv [OF assms sv Cons.prems(2)]] show ?case .
qed

lemma cursor_inv_init: "cursor_inv Arena_init"
  by (simp add: cursor_inv_def Arena_init_def)


lemma wrap7:
  fixes A D :: nat
  assumes "A < 2 ^ 64" and "D \<le> 7" and "\<not> A + D < 2 ^ 64"
  shows "(A + D) mod 2 ^ 64 < 7"
proof -
  from assms(3) have "(A + D) mod 2 ^ 64 = (A + D - 2 ^ 64) mod 2 ^ 64"
    by (simp only: le_mod_geq not_less)
  also from assms(1,2) have "\<dots> = A + D - 2 ^ 64" by simp
  finally show ?thesis using assms by simp
qed

lemma serve_clear:
  assumes ok: "new_ok new_char" and sv: "serve new_char r s = Inr (x, s')"
    and old: "b0 \<in> set (blocks s)" and size: "snd b0 = 4096"
    and act: "active_block s b" and sep: "separate b b0"
  shows "b0 \<in> set (blocks s')" and "\<exists>b'. active_block s' b' \<and> separate b' b0"
    and "\<not> (unat (fst b0) + 8 \<le> unat x \<and> unat x < unat (fst b0) + 4096)"
proof -
  from act have b: "snd b = 4096" "unat (fst b) + 4096 < 2 ^ 64"
    "unat (fst b) \<le> unat (alloc_ptr s)"
    "unat (alloc_ptr s) + unat (alloc_bytes_remaining s) = unat (fst b) + 4096"
    by (simp_all add: active_block_def)
  from sep b(1) size have order:
    "unat (fst b) + 4096 \<le> unat (fst b0) \<or> unat (fst b0) + 4096 \<le> unat (fst b)"
    by (simp add: separate_def)
  have fresh: "unat p + unat n \<le> unat (fst b0) \<or> unat (fst b0) + 4096 \<le> unat p"
    if "new_char (blocks s) n = Some p" "n \<noteq> 0" for p n
  proof -
    from ok that(1) old have "separate (p, n) b0" unfolding new_ok_def by blast
    with that(2) size show ?thesis by (simp add: separate_def)
  qed
  from serve_cases [OF sv]
  have "b0 \<in> set (blocks s') \<and> (\<exists>b'. active_block s' b' \<and> separate b' b0) \<and>
        \<not> (unat (fst b0) + 8 \<le> unat x \<and> unat x < unat (fst b0) + 4096)"
  proof (elim disjE exE conjE)
    fix d m
    assume d: "unat d \<le> 7" and m: "m \<le> alloc_bytes_remaining s"
      and x: "x = alloc_ptr s + d"
      and s': "s' = s\<lparr>alloc_ptr := alloc_ptr s + m,
                       alloc_bytes_remaining := alloc_bytes_remaining s - m\<rparr>"
    have ux: "unat x = unat (alloc_ptr s) + unat d \<or> unat x < 7"
    proof (cases "unat (alloc_ptr s) + unat d < 2 ^ 64")
      case True
      then show ?thesis unfolding x by (simp add: unat_add_lem [THEN iffD1])
    next
      case False
      have lt: "unat (alloc_ptr s) < 2 ^ 64" using unsigned_less [of "alloc_ptr s"] by simp
      have "unat x = (unat (alloc_ptr s) + unat d) mod 2 ^ 64"
        unfolding x by (simp add: unat_word_ariths)
      with wrap7 [OF lt d False] show ?thesis by simp
    qed
    have "\<not> (unat (fst b0) + 8 \<le> unat x \<and> unat x < unat (fst b0) + 4096)"
      using ux order b(3,4) d by auto
    moreover from active_block_carve [OF act m] sep s'
    have "\<exists>b'. active_block s' b' \<and> separate b' b0" by blast
    moreover from old s' have "b0 \<in> set (blocks s')" by simp
    ultimately show ?thesis by blast
  next
    assume big: "1024 < unat (request_bytes r)"
      and nw: "new_char (blocks s) (request_bytes r) = Some x"
      and s': "s' = s\<lparr>blocks_memory := blocks_memory s + request_bytes r,
                   blocks := blocks s @ [(x, request_bytes r)]\<rparr>"
    from big have "request_bytes r \<noteq> 0" by auto
    from fresh [OF nw this] big
    have "\<not> (unat (fst b0) + 8 \<le> unat x \<and> unat x < unat (fst b0) + 4096)" by auto
    moreover from act s' have "active_block s' b" by (simp add: active_block_def)
    with sep have "\<exists>b'. active_block s' b' \<and> separate b' b0" by blast
    moreover from old s' have "b0 \<in> set (blocks s')" by simp
    ultimately show ?thesis by blast
  next
    assume small: "unat (request_bytes r) \<le> 1024"
      and nw: "new_char (blocks s) 4096 = Some x"
      and s': "s' = s\<lparr>blocks_memory := blocks_memory s + 4096, blocks := blocks s @ [(x, 4096)],
                   alloc_ptr := x + request_bytes r,
                   alloc_bytes_remaining := 4096 - request_bytes r\<rparr>"
    from fresh [OF nw]
    have "\<not> (unat (fst b0) + 8 \<le> unat x \<and> unat x < unat (fst b0) + 4096)" by auto
    moreover from ok nw old have "separate (x, 4096) b0" unfolding new_ok_def by blast
    with active_block_small [OF ok nw small] s'
    have "\<exists>b'. active_block s' b' \<and> separate b' b0" by blast
    moreover from old s' have "b0 \<in> set (blocks s')" by simp
    ultimately show ?thesis by blast
  qed
  then show "b0 \<in> set (blocks s')" and "\<exists>b'. active_block s' b' \<and> separate b' b0"
    and "\<not> (unat (fst b0) + 8 \<le> unat x \<and> unat x < unat (fst b0) + 4096)"
    by simp_all
qed

lemma run_clear:
  assumes ok: "new_ok new_char" and size: "snd b0 = 4096"
  shows "run new_char reqs s = Inr (ps, s') \<Longrightarrow> b0 \<in> set (blocks s) \<Longrightarrow>
         \<exists>b. active_block s b \<and> separate b b0 \<Longrightarrow> i < length reqs \<Longrightarrow>
         \<not> (unat (fst b0) + 8 \<le> unat (fst (ps ! i)) \<and> unat (fst (ps ! i)) < unat (fst b0) + 4096)"
proof (induction reqs arbitrary: s ps i)
  case Nil
  then show ?case by simp
next
  case (Cons r reqs)
  from run_Cons_Inr [THEN iffD1, OF Cons.prems(1)]
  obtain p s1 ps' where sv: "serve new_char r s = Inr (p, s1)"
    and rest: "run new_char reqs s1 = Inr (ps', s')"
    and ps: "ps = (p, request_bytes r) # ps'" by blast
  from Cons.prems(3) obtain b where act: "active_block s b" and sep: "separate b b0" by blast
  note step = serve_clear [OF ok sv Cons.prems(2) size act sep]
  show ?case
  proof (cases i)
    case 0
    with step(3) ps show ?thesis by simp
  next
    case (Suc k)
    with Cons.prems(4) have "k < length reqs" by simp
    from Cons.IH [OF rest step(1,2) this] Suc ps show ?thesis by simp
  qed
qed

lemma remainder_deep:
  assumes act: "active_block a b0" and small: "unat (request_bytes r) \<le> 1024"
    and nf: "\<not> fits r a"
  shows "unat (fst b0) + 8 \<le> unat (alloc_ptr a)"
proof -
  have "unat (alloc_bytes_remaining a) < 1032"
  proof (cases r)
    case (ReqAllocate n)
    with nf have "unat (alloc_bytes_remaining a) < unat n" by (simp add: word_le_nat_alt)
    with small ReqAllocate show ?thesis by simp
  next
    case (ReqAllocateAligned n)
    with small alignment_slop_le [of a] have "unat n + unat (alignment_slop a) < 2 ^ 64" by simp
    then have "unat (n + alignment_slop a) = unat n + unat (alignment_slop a)"
      by (simp add: unat_add_lem [THEN iffD1])
    moreover from nf ReqAllocateAligned
    have "unat (alloc_bytes_remaining a) < unat (n + alignment_slop a)"
      by (simp add: word_le_nat_alt)
    ultimately show ?thesis using small ReqAllocateAligned alignment_slop_le [of a] by simp
  qed
  with act show ?thesis by (simp add: active_block_def)
qed

lemma later_address_outside:
  assumes ok: "new_ok new_char"
    and cur: "cursor_inv a"
    and small: "unat (request_bytes r) \<le> 1024" and nf: "\<not> fits r a"
    and sv: "serve new_char r a = Inr (p, a1)"
    and later: "run new_char later a1 = Inr (ps, a2)"
    and i: "i < length later"
  shows "\<not> in_range (fst (ps ! i)) (alloc_ptr a, alloc_bytes_remaining a)"
proof (cases "alloc_bytes_remaining a = 0")
  case True
  then show ?thesis by (simp add: in_range_def)
next
  case False
  with cur obtain b0 where act: "active_block a b0" by (auto simp: cursor_inv_def)
  then have b0: "b0 \<in> set (blocks a)" "snd b0 = 4096"
    "unat (alloc_ptr a) + unat (alloc_bytes_remaining a) = unat (fst b0) + 4096"
    "unat (fst b0) + 4096 < 2 ^ 64"
    by (simp_all add: active_block_def)
  from serve_fallback [OF sv nf] small
  have nw: "new_char (blocks a) 4096 = Some p"
    and a1: "a1 = a\<lparr>blocks_memory := blocks_memory a + 4096, blocks := blocks a @ [(p, 4096)],
             alloc_ptr := p + request_bytes r, alloc_bytes_remaining := 4096 - request_bytes r\<rparr>"
    by (simp_all add: AllocateFallback_small)
  from ok nw b0(1) have sep: "separate (p, 4096) b0" unfolding new_ok_def by blast
  from active_block_small [OF ok nw small] a1 have "active_block a1 (p, 4096)" by simp
  with sep have ex: "\<exists>b. active_block a1 b \<and> separate b b0" by blast
  from b0(1) a1 have "b0 \<in> set (blocks a1)" by simp
  from run_clear [OF ok b0(2) later this ex i]
  have out: "\<not> (unat (fst b0) + 8 \<le> unat (fst (ps ! i)) \<and>
      unat (fst (ps ! i)) < unat (fst b0) + 4096)" .
  from b0(3,4) have "unat (alloc_ptr a) + unat (alloc_bytes_remaining a) \<le> 2 ^ 64" by simp
  from in_range_nat [OF this] out remainder_deep [OF act small nf] b0(3)
  show ?thesis by auto
qed

text \<open>
  C10. When a request of at most 1024 bytes does not fit the free part of the active
  block, the arena gets a new block of 4096 bytes that shares no byte with the blocks
  held, returns its start and makes the rest of it the free part of the active block. The
  free part that the previous active block had left is abandoned. Whatever calls follow:
  the arena's free part, from which every call served by the active block is carved,
  shares no byte with it; no call returns an address in it; and the range returned to a
  call shares no byte with it. The last is for the ranges that are ranges of memory, those
  of the calls whose \<open>bytes + 7\<close> does not wrap: a call for more than \<open>2^64 - 8\<close> bytes
  names more bytes than any block holds, and its address and what is carved for it are
  covered by the first two.
\<close>

theorem small_request_new_block:
  assumes "new_ok new_char"
    and "run new_char earlier Arena_init = Inr (rs, a)"
    and "unat (request_bytes r) \<le> 1024" and "\<not> fits r a"
    and "serve new_char r a = Inr (p, a1)"
    and "run new_char later a1 = Inr (ps, a2)"
  shows "blocks a1 = blocks a @ [(p, 4096)] \<and>
         (\<forall>b \<in> set (blocks a). \<not> ranges_overlap b (p, 4096)) \<and>
         alloc_ptr a1 = p + request_bytes r \<and>
         alloc_bytes_remaining a1 = 4096 - request_bytes r \<and>
         \<not> ranges_overlap (alloc_ptr a2, alloc_bytes_remaining a2)
              (alloc_ptr a, alloc_bytes_remaining a) \<and>
         (\<forall>i < length later.
            \<not> in_range (fst (ps ! i)) (alloc_ptr a, alloc_bytes_remaining a)) \<and>
         (\<forall>i < length later. no_wrap (later ! i) \<longrightarrow>
            \<not> ranges_overlap (ps ! i) (alloc_ptr a, alloc_bytes_remaining a))"
proof -
  let ?n = "request_bytes r"
  let ?left = "(alloc_ptr a, alloc_bytes_remaining a)"
  from run_inv_tracked [OF assms(2) arena_inv_init assms(1)]
  have inv: "arena_inv a (tracked earlier rs)" by simp
  from serve_fallback [OF assms(5,4)] have fb: "AllocateFallback new_char ?n a = Inr (p, a1)" .
  with assms(3) have nw: "new_char (blocks a) 4096 = Some p"
    and a1: "a1 = a\<lparr>blocks_memory := blocks_memory a + 4096, blocks := blocks a @ [(p, 4096)],
             alloc_ptr := p + ?n, alloc_bytes_remaining := 4096 - ?n\<rparr>"
    by (simp_all add: AllocateFallback_small)
  from fallback_small_inv [OF inv assms(1) nw assms(3)]
  have "arena_inv a1 ((tracked earlier rs @ [(p, ?n)]) @ [?left])"
    by (simp add: a1)
  from run_inv_tracked [OF assms(6) this assms(1)]
  have all: "arena_inv a2 ((tracked earlier rs @ [(p, ?n)]) @ [?left] @ tracked later ps)"
    by simp
  have blk: "\<forall>b \<in> set (blocks a). \<not> ranges_overlap b (p, 4096)"
    by (rule new_block_no_overlap [OF inv assms(1) nw])
  have free: "\<not> ranges_overlap (alloc_ptr a2, alloc_bytes_remaining a2) ?left"
  proof -
    from all have "separate ?left (alloc_ptr a2, alloc_bytes_remaining a2)"
      by (simp add: arena_inv_def)
    then have "separate (alloc_ptr a2, alloc_bytes_remaining a2) ?left" by (rule separate_sym)
    moreover have "snd (alloc_ptr a2, alloc_bytes_remaining a2) = 0 \<or>
        unat (fst (alloc_ptr a2, alloc_bytes_remaining a2)) +
        unat (snd (alloc_ptr a2, alloc_bytes_remaining a2)) \<le> 2 ^ 64"
      using free_region_bound [OF all] by (cases "alloc_bytes_remaining a2 = 0") simp_all
    moreover have "snd ?left = 0 \<or> unat (fst ?left) + unat (snd ?left) \<le> 2 ^ 64"
      using free_region_bound [OF inv] by (cases "alloc_bytes_remaining a = 0") simp_all
    ultimately show ?thesis by (rule separate_no_overlap)
  qed
  from run_cursor_inv [OF assms(1,2) cursor_inv_init] have cur: "cursor_inv a" .
  have addr: "\<not> in_range (fst (ps ! i)) ?left" if "i < length later" for i
    by (rule later_address_outside [OF assms(1) cur assms(3,4,5,6) that])
  have "\<not> ranges_overlap (ps ! i) ?left"
    if "i < length later" "no_wrap (later ! i)" for i
  proof -
    from that have "tracked later ps ! i = ps ! i"
      by (simp add: tracked_nth [OF run_length [OF assms(6)]])
    moreover from that have "tracked later ps ! i \<in> set (tracked later ps)"
      by (simp add: length_tracked [OF run_length [OF assms(6)]])
    ultimately show ?thesis using arena_inv_others_disjoint [OF all, of "ps ! i"] by simp
  qed
  with a1 blk free addr show ?thesis by simp
qed

section \<open>Concrete runs of the arena\<close>

lemma foldr_max_ge:
  "b \<in> set bs \<Longrightarrow>
   unat (fst b) + unat (snd b) \<le> foldr (\<lambda>b t. max (unat (fst b) + unat (snd b)) t) bs k"
  by (induction bs) auto

lemma example_new_Some:
  assumes "example_new bs n = Some p"
  shows "unat p mod 8 = 0" and "unat p + unat n < 2 ^ 64" and "\<forall>b \<in> set bs. separate (p, n) b"
proof -
  define top where "top = foldr (\<lambda>b t. max (unat (fst b) + unat (snd b)) t) bs 65536"
  define base where "base = 16 * ((top + 15) div 16)"
  from assms have lt: "base + unat n < 2 ^ 64" and p: "p = of_nat base"
    by (auto simp: example_new_def Let_def top_def base_def split: if_splits)
  then have up: "unat p = base" by (simp add: unat_of_nat)
  have ge: "top \<le> base" unfolding base_def by presburger
  have al: "base mod 8 = 0" unfolding base_def by presburger
  show "unat p mod 8 = 0" using up al by simp
  show "unat p + unat n < 2 ^ 64" using up lt by simp
  show "\<forall>b \<in> set bs. separate (p, n) b"
  proof
    fix b assume "b \<in> set bs"
    from foldr_max_ge [OF this, of 65536] have "unat (fst b) + unat (snd b) \<le> top"
      by (simp add: top_def)
    with ge up show "separate (p, n) b" by (simp add: separate_def)
  qed
qed

lemma new_ok_example: "new_ok example_new"
  unfolding new_ok_def using example_new_Some(2,3) by blast

lemma new_aligned_example: "new_aligned example_new"
  unfolding new_aligned_def pointer_size_def using example_new_Some(1) by auto

lemmas arena_eval =
  AllocateAligned_def Allocate_def AllocateFallback_def AllocateNewBlock_def example_new_def
  Arena_init_def pointer_size_def kBlockSize_def Let_def

text \<open>
  C9 at a concrete run: sizes 0, 1 and 5000 on a new arena.
\<close>

theorem AllocateAligned_alignment_witness:
  "new_aligned example_new \<and>
   run example_new [ReqAllocateAligned 0, ReqAllocateAligned 1, ReqAllocateAligned 5000] Arena_init =
     Inr ([(0, 0), (65536, 1), (69632, 5000)],
          \<lparr>alloc_ptr = 65537, alloc_bytes_remaining = 4095,
           blocks = [(65536, 4096), (69632, 5000)], blocks_memory = 9096\<rparr>) \<and>
   unat (0 :: address) mod nat pointer_size = 0 \<and>
   unat (65536 :: address) mod nat pointer_size = 0 \<and>
   unat (69632 :: address) mod nat pointer_size = 0"
proof -
  have r: "run example_new [ReqAllocateAligned 0, ReqAllocateAligned 1, ReqAllocateAligned 5000] Arena_init =
     Inr ([(0, 0), (65536, 1), (69632, 5000)],
          \<lparr>alloc_ptr = 65537, alloc_bytes_remaining = 4095,
           blocks = [(65536, 4096), (69632, 5000)], blocks_memory = 9096\<rparr>)"
    by (simp add: arena_eval)
  from AllocateAligned_alignment [OF new_aligned_example,
      of "[ReqAllocateAligned 0, ReqAllocateAligned 1, ReqAllocateAligned 5000]" Arena_init]
    r new_aligned_example
  show ?thesis by (simp add: pointer_size_def)
qed

lemma wrap_step1:
  "AllocateAligned example_new 1 Arena_init =
     Inr (65536, \<lparr>alloc_ptr = 65537, alloc_bytes_remaining = 4095,
                  blocks = [(65536, 4096)], blocks_memory = 4096\<rparr>)"
  by (simp add: arena_eval)

lemma wrap_step2:
  "AllocateAligned example_new 18446744073709551615
     \<lparr>alloc_ptr = 65537, alloc_bytes_remaining = 4095,
      blocks = [(65536, 4096)], blocks_memory = 4096\<rparr> =
     Inr (65544, \<lparr>alloc_ptr = 65543, alloc_bytes_remaining = 4089,
                  blocks = [(65536, 4096)], blocks_memory = 4096\<rparr>)"
  by (simp add: arena_eval)

lemma wrap_step3:
  "AllocateAligned example_new 16
     \<lparr>alloc_ptr = 65543, alloc_bytes_remaining = 4089,
      blocks = [(65536, 4096)], blocks_memory = 4096\<rparr> =
     Inr (65544, \<lparr>alloc_ptr = 65560, alloc_bytes_remaining = 4072,
                  blocks = [(65536, 4096)], blocks_memory = 4096\<rparr>)"
  by (simp add: arena_eval)

lemma wrap_aligned_cursor:
  "AllocateAligned example_new 18446744073709551615 Arena_init = Inl BadAlloc"
  by (simp add: arena_eval)

lemma wrap_Allocate:
  "Allocate example_new 18446744073709551615
     \<lparr>alloc_ptr = 65537, alloc_bytes_remaining = 4095,
      blocks = [(65536, 4096)], blocks_memory = 4096\<rparr> = Inl BadAlloc"
  by (simp add: arena_eval)

text \<open>
  C7. The ranges returned by the calls on one arena are to be pairwise disjoint; the code
  returns the same address twice in this run. After \<open>AllocateAligned(1)\<close> the cursor is at
  65537; in \<open>AllocateAligned(2^64 - 1)\<close> the padding is 7 and \<open>bytes + slop\<close> wraps to 6,
  so the test \<open>needed <= alloc_bytes_remaining_\<close> passes, the call returns 65544 and moves
  the cursor by 6 only; the next \<open>AllocateAligned(16)\<close> returns 65544 again. The same
  request is not served from the active block where nothing is added to it: with an
  aligned cursor (no padding) and through \<open>Allocate\<close> it fails the test and goes to
  \<open>new char[]\<close>, which throws.
\<close>

theorem AllocateAligned_wrap_overlap:
  "run example_new [ReqAllocateAligned 1, ReqAllocateAligned 18446744073709551615,
                    ReqAllocateAligned 16] Arena_init =
     Inr ([(65536, 1), (65544, 18446744073709551615), (65544, 16)],
          \<lparr>alloc_ptr = 65560, alloc_bytes_remaining = 4072,
           blocks = [(65536, 4096)], blocks_memory = 4096\<rparr>) \<and>
   in_range 65544 (65544, 18446744073709551615) \<and> in_range 65544 (65544, 16) \<and>
   ranges_overlap (65544, 18446744073709551615) (65544, 16) \<and>
   run example_new [ReqAllocateAligned 18446744073709551615] Arena_init = Inl BadAlloc \<and>
   run example_new [ReqAllocateAligned 1, ReqAllocate 18446744073709551615] Arena_init =
     Inl BadAlloc"
proof -
  have s1: "run example_new [ReqAllocateAligned 18446744073709551615] Arena_init = Inl BadAlloc"
    by (simp add: wrap_aligned_cursor)
  have s2: "run example_new [ReqAllocateAligned 1, ReqAllocate 18446744073709551615] Arena_init =
     Inl BadAlloc"
    by (simp add: wrap_step1 wrap_Allocate)
  have r: "run example_new [ReqAllocateAligned 1, ReqAllocateAligned 18446744073709551615,
                    ReqAllocateAligned 16] Arena_init =
     Inr ([(65536, 1), (65544, 18446744073709551615), (65544, 16)],
          \<lparr>alloc_ptr = 65560, alloc_bytes_remaining = 4072,
           blocks = [(65536, 4096)], blocks_memory = 4096\<rparr>)"
    by (simp add: wrap_step1 wrap_step2 wrap_step3)
  have i1: "in_range 65544 (65544, 18446744073709551615)" by (simp add: in_range_def)
  have i2: "in_range 65544 (65544, 16)" by (simp add: in_range_def)
  from i1 i2 have "ranges_overlap (65544, 18446744073709551615) (65544, 16)"
    unfolding ranges_overlap_def by blast
  with r i1 i2 s1 s2 show ?thesis by blast
qed

lemma mixed_run:
  "run example_new [ReqAllocateAligned 8, ReqAllocate 3, ReqAllocateAligned 5000,
                    ReqAllocateAligned 16] Arena_init =
     Inr ([(65536, 8), (65544, 3), (69632, 5000), (65552, 16)],
          \<lparr>alloc_ptr = 65568, alloc_bytes_remaining = 4064,
           blocks = [(65536, 4096), (69632, 5000)], blocks_memory = 9096\<rparr>)"
  by (simp add: arena_eval)

text \<open>
  The ranges of a concrete run of four calls, one of them served by a block of its own.
\<close>

lemma arena_ranges_disjoint_valid_example:
  "new_ok example_new \<and>
   run example_new [ReqAllocateAligned 8, ReqAllocate 3, ReqAllocateAligned 5000,
                    ReqAllocateAligned 16] Arena_init =
     Inr ([(65536, 8), (65544, 3), (69632, 5000), (65552, 16)],
          \<lparr>alloc_ptr = 65568, alloc_bytes_remaining = 4064,
           blocks = [(65536, 4096), (69632, 5000)], blocks_memory = 9096\<rparr>) \<and>
   \<not> ranges_overlap (65536, 8) (65544, 3) \<and>
   \<not> ranges_overlap (65544, 3) (65552, 16) \<and>
   \<not> ranges_overlap (69632, 5000) (65552, 16) \<and>
   (\<exists>b \<in> set [(65536, 4096), (69632, 5000)]. inside (65544, 3) b)"
proof -
  let ?reqs = "[ReqAllocateAligned 8, ReqAllocate 3, ReqAllocateAligned 5000, ReqAllocateAligned 16]"
  let ?ps = "[(65536, 8), (65544, 3), (69632, 5000), (65552, 16)] :: range list"
  note t = arena_ranges_disjoint_valid [OF new_ok_example mixed_run]
  from t have d: "\<And>i j. i < j \<Longrightarrow> j < length ?reqs \<Longrightarrow> no_wrap (?reqs ! i) \<Longrightarrow>
      no_wrap (?reqs ! j) \<Longrightarrow> \<not> ranges_overlap (?ps ! i) (?ps ! j)"
    by blast
  from d [of 0 1] d [of 1 3] d [of 2 3]
  have "\<not> ranges_overlap (65536, 8) (65544, 3)" "\<not> ranges_overlap (65544, 3) (65552, 16)"
    "\<not> ranges_overlap (69632, 5000) (65552, 16)"
    by simp_all
  moreover from t have "\<And>i. i < length ?reqs \<Longrightarrow> no_wrap (?reqs ! i) \<Longrightarrow>
      snd (?ps ! i) = 0 \<or> (\<exists>b \<in> set [(65536, 4096), (69632, 5000)]. inside (?ps ! i) b)"
    by simp
  from this [of 1] have "\<exists>b \<in> set [(65536, 4096), (69632, 5000)]. inside (65544, 3) b"
    by simp
  ultimately show ?thesis using new_ok_example mixed_run by blast
qed

lemma fast_step1:
  "AllocateAligned example_new 8 Arena_init =
     Inr (65536, \<lparr>alloc_ptr = 65544, alloc_bytes_remaining = 4088,
                  blocks = [(65536, 4096)], blocks_memory = 4096\<rparr>)"
  by (simp add: arena_eval)

lemma fast_step2:
  "AllocateAligned example_new 2000
     \<lparr>alloc_ptr = 65544, alloc_bytes_remaining = 4088,
      blocks = [(65536, 4096)], blocks_memory = 4096\<rparr> =
     Inr (65544, \<lparr>alloc_ptr = 67544, alloc_bytes_remaining = 2088,
                  blocks = [(65536, 4096)], blocks_memory = 4096\<rparr>)"
  by (simp add: arena_eval)

lemma large_step:
  "AllocateAligned example_new 5000
     \<lparr>alloc_ptr = 65544, alloc_bytes_remaining = 4088,
      blocks = [(65536, 4096)], blocks_memory = 4096\<rparr> =
     Inr (69632, \<lparr>alloc_ptr = 65544, alloc_bytes_remaining = 4088,
                  blocks = [(65536, 4096), (69632, 5000)], blocks_memory = 9096\<rparr>)"
  by (simp add: arena_eval)

lemma large_later:
  "AllocateAligned example_new 16
     \<lparr>alloc_ptr = 65544, alloc_bytes_remaining = 4088,
      blocks = [(65536, 4096), (69632, 5000)], blocks_memory = 9096\<rparr> =
     Inr (65544, \<lparr>alloc_ptr = 65560, alloc_bytes_remaining = 4072,
                  blocks = [(65536, 4096), (69632, 5000)], blocks_memory = 9096\<rparr>)"
  by (simp add: arena_eval)

text \<open>
  C8 as stated fails. A request of 2000 bytes that fits the active block is carved from
  it: no block is added and the cursor moves from 65544 to 67544. And a block of 5000
  bytes given to one request is, after \<open>AllocateAligned(2^64 - 1)\<close> has wrapped, inside the
  range returned to that call.
\<close>

theorem large_request_counterexample:
  "run example_new [ReqAllocateAligned 8] Arena_init =
     Inr ([(65536, 8)], \<lparr>alloc_ptr = 65544, alloc_bytes_remaining = 4088,
                          blocks = [(65536, 4096)], blocks_memory = 4096\<rparr>) \<and>
   4096 div 4 < unat (2000 :: size_t) \<and>
   AllocateAligned example_new 2000
     \<lparr>alloc_ptr = 65544, alloc_bytes_remaining = 4088,
      blocks = [(65536, 4096)], blocks_memory = 4096\<rparr> =
     Inr (65544, \<lparr>alloc_ptr = 67544, alloc_bytes_remaining = 2088,
                  blocks = [(65536, 4096)], blocks_memory = 4096\<rparr>) \<and>
   AllocateAligned example_new 5000
     \<lparr>alloc_ptr = 65544, alloc_bytes_remaining = 4088,
      blocks = [(65536, 4096)], blocks_memory = 4096\<rparr> =
     Inr (69632, \<lparr>alloc_ptr = 65544, alloc_bytes_remaining = 4088,
                  blocks = [(65536, 4096), (69632, 5000)], blocks_memory = 9096\<rparr>) \<and>
   run example_new [ReqAllocateAligned 1, ReqAllocateAligned 18446744073709551615]
     \<lparr>alloc_ptr = 65544, alloc_bytes_remaining = 4088,
      blocks = [(65536, 4096), (69632, 5000)], blocks_memory = 9096\<rparr> =
     Inr ([(65544, 1), (65552, 18446744073709551615)],
          \<lparr>alloc_ptr = 65551, alloc_bytes_remaining = 4081,
           blocks = [(65536, 4096), (69632, 5000)], blocks_memory = 9096\<rparr>) \<and>
   in_range 69632 (69632, 5000) \<and> in_range 69632 (65552, 18446744073709551615)"
proof -
  have a: "run example_new [ReqAllocateAligned 8] Arena_init =
     Inr ([(65536, 8)], \<lparr>alloc_ptr = 65544, alloc_bytes_remaining = 4088,
                          blocks = [(65536, 4096)], blocks_memory = 4096\<rparr>)"
    by (simp add: fast_step1)
  have b: "4096 div 4 < unat (2000 :: size_t)" by simp
  have e: "run example_new [ReqAllocateAligned 1, ReqAllocateAligned 18446744073709551615]
     \<lparr>alloc_ptr = 65544, alloc_bytes_remaining = 4088,
      blocks = [(65536, 4096), (69632, 5000)], blocks_memory = 9096\<rparr> =
     Inr ([(65544, 1), (65552, 18446744073709551615)],
          \<lparr>alloc_ptr = 65551, alloc_bytes_remaining = 4081,
           blocks = [(65536, 4096), (69632, 5000)], blocks_memory = 9096\<rparr>)"
    by (simp add: arena_eval)
  have i1: "in_range 69632 (69632, 5000)" by (simp add: in_range_def)
  have i2: "in_range 69632 (65552, 18446744073709551615)" by (simp add: in_range_def)
  show ?thesis by (intro conjI a b fast_step2 large_step e i1 i2)
qed

text \<open>
  C8 (amended) at a concrete run: 5000 bytes asked for with 4088 remaining.
\<close>

theorem large_request_dedicated_block_witness:
  "new_ok example_new \<and>
   run example_new [ReqAllocateAligned 8] Arena_init =
     Inr ([(65536, 8)], \<lparr>alloc_ptr = 65544, alloc_bytes_remaining = 4088,
                          blocks = [(65536, 4096)], blocks_memory = 4096\<rparr>) \<and>
   1024 < unat (request_bytes (ReqAllocateAligned 5000)) \<and>
   \<not> fits (ReqAllocateAligned 5000) \<lparr>alloc_ptr = 65544, alloc_bytes_remaining = 4088,
                          blocks = [(65536, 4096)], blocks_memory = 4096\<rparr> \<and>
   serve example_new (ReqAllocateAligned 5000)
     \<lparr>alloc_ptr = 65544, alloc_bytes_remaining = 4088,
      blocks = [(65536, 4096)], blocks_memory = 4096\<rparr> =
     Inr (69632, \<lparr>alloc_ptr = 65544, alloc_bytes_remaining = 4088,
                  blocks = [(65536, 4096), (69632, 5000)], blocks_memory = 9096\<rparr>) \<and>
   run example_new [ReqAllocateAligned 16]
     \<lparr>alloc_ptr = 65544, alloc_bytes_remaining = 4088,
      blocks = [(65536, 4096), (69632, 5000)], blocks_memory = 9096\<rparr> =
     Inr ([(65544, 16)], \<lparr>alloc_ptr = 65560, alloc_bytes_remaining = 4072,
                  blocks = [(65536, 4096), (69632, 5000)], blocks_memory = 9096\<rparr>) \<and>
   \<not> ranges_overlap (65536, 4096) (69632, 5000) \<and>
   \<not> ranges_overlap (65536, 8) (69632, 5000) \<and>
   \<not> ranges_overlap (65544, 16) (69632, 5000)"
proof -
  let ?a = "\<lparr>alloc_ptr = 65544, alloc_bytes_remaining = 4088,
             blocks = [(65536, 4096)], blocks_memory = 4096 :: size_t\<rparr>"
  let ?a1 = "\<lparr>alloc_ptr = 65544, alloc_bytes_remaining = 4088,
              blocks = [(65536, 4096), (69632, 5000)], blocks_memory = 9096 :: size_t\<rparr>"
  let ?a2 = "\<lparr>alloc_ptr = 65560, alloc_bytes_remaining = 4072,
              blocks = [(65536, 4096), (69632, 5000)], blocks_memory = 9096 :: size_t\<rparr>"
  have e: "run example_new [ReqAllocateAligned 8] Arena_init = Inr ([(65536, 8)], ?a)"
    by (simp add: fast_step1)
  have big: "1024 < unat (request_bytes (ReqAllocateAligned 5000))" by simp
  have nf: "\<not> fits (ReqAllocateAligned 5000) ?a" by (simp add: alignment_slop_def)
  have sv: "serve example_new (ReqAllocateAligned 5000) ?a = Inr (69632, ?a1)"
    by (simp add: large_step)
  have l: "run example_new [ReqAllocateAligned 16] ?a1 = Inr ([(65544, 16)], ?a2)"
    by (simp add: large_later)
  note t = large_request_dedicated_block [OF new_ok_example e big nf sv l]
  from t have "\<not> ranges_overlap (65536, 4096) (69632, 5000)" by simp
  moreover from t have "\<And>i. i < length [ReqAllocateAligned 8] \<Longrightarrow>
      no_wrap ([ReqAllocateAligned 8] ! i) \<Longrightarrow>
      \<not> ranges_overlap ([(65536, 8)] ! i) (69632, 5000)"
    by simp
  from this [of 0] have "\<not> ranges_overlap (65536, 8) (69632, 5000)" by simp
  moreover from t have "\<And>i. i < length [ReqAllocateAligned 16] \<Longrightarrow>
      no_wrap ([ReqAllocateAligned 16] ! i) \<Longrightarrow>
      \<not> ranges_overlap ([(65544, 16)] ! i) (69632, 5000)"
    by simp
  from this [of 0] have "\<not> ranges_overlap (65544, 16) (69632, 5000)" by simp
  ultimately show ?thesis using new_ok_example e big nf sv l by blast
qed

lemma fill_block:
  "run example_new [ReqAllocateAligned 1024, ReqAllocateAligned 1024, ReqAllocateAligned 1024,
                    ReqAllocateAligned 1000] Arena_init =
     Inr ([(65536, 1024), (66560, 1024), (67584, 1024), (68608, 1000)],
          \<lparr>alloc_ptr = 69608, alloc_bytes_remaining = 24,
           blocks = [(65536, 4096)], blocks_memory = 4096\<rparr>)"
  by (simp add: arena_eval)

lemma fill_step5:
  "AllocateAligned example_new 25
     \<lparr>alloc_ptr = 69608, alloc_bytes_remaining = 24,
      blocks = [(65536, 4096)], blocks_memory = 4096\<rparr> =
     Inr (69632, \<lparr>alloc_ptr = 69657, alloc_bytes_remaining = 4071,
                  blocks = [(65536, 4096), (69632, 4096)], blocks_memory = 8192\<rparr>)"
  by (simp add: arena_eval)

lemma fill_step6:
  "AllocateAligned example_new 18446744073709551615
     \<lparr>alloc_ptr = 69657, alloc_bytes_remaining = 4071,
      blocks = [(65536, 4096), (69632, 4096)], blocks_memory = 8192\<rparr> =
     Inr (69664, \<lparr>alloc_ptr = 69663, alloc_bytes_remaining = 4065,
                  blocks = [(65536, 4096), (69632, 4096)], blocks_memory = 8192\<rparr>)"
  by (simp add: arena_eval)

lemma fill_step7:
  "AllocateAligned example_new 8
     \<lparr>alloc_ptr = 69663, alloc_bytes_remaining = 4065,
      blocks = [(65536, 4096), (69632, 4096)], blocks_memory = 8192\<rparr> =
     Inr (69664, \<lparr>alloc_ptr = 69672, alloc_bytes_remaining = 4056,
                  blocks = [(65536, 4096), (69632, 4096)], blocks_memory = 8192\<rparr>)"
  by (simp add: arena_eval)

lemma fill_later:
  "run example_new [ReqAllocateAligned 18446744073709551615, ReqAllocateAligned 8]
     \<lparr>alloc_ptr = 69657, alloc_bytes_remaining = 4071,
      blocks = [(65536, 4096), (69632, 4096)], blocks_memory = 8192\<rparr> =
     Inr ([(69664, 18446744073709551615), (69664, 8)],
          \<lparr>alloc_ptr = 69672, alloc_bytes_remaining = 4056,
           blocks = [(65536, 4096), (69632, 4096)], blocks_memory = 8192\<rparr>)"
  by (simp add: fill_step6 fill_step7)

text \<open>
  C10 at a concrete run: 25 bytes asked for with 24 remaining at 69608. A new block at
  69632 serves the call. Of the two calls that follow, the first is one whose
  \<open>bytes + slop\<close> wraps; both are served from the new block, at 69664, and the 24 bytes
  stay clear of the free part and of the range of the second call.
\<close>

theorem small_request_new_block_witness:
  "new_ok example_new \<and>
   run example_new [ReqAllocateAligned 1024, ReqAllocateAligned 1024, ReqAllocateAligned 1024,
                    ReqAllocateAligned 1000] Arena_init =
     Inr ([(65536, 1024), (66560, 1024), (67584, 1024), (68608, 1000)],
          \<lparr>alloc_ptr = 69608, alloc_bytes_remaining = 24,
           blocks = [(65536, 4096)], blocks_memory = 4096\<rparr>) \<and>
   unat (request_bytes (ReqAllocateAligned 25)) \<le> 1024 \<and>
   \<not> fits (ReqAllocateAligned 25)
       \<lparr>alloc_ptr = 69608, alloc_bytes_remaining = 24,
        blocks = [(65536, 4096)], blocks_memory = 4096\<rparr> \<and>
   serve example_new (ReqAllocateAligned 25)
     \<lparr>alloc_ptr = 69608, alloc_bytes_remaining = 24,
      blocks = [(65536, 4096)], blocks_memory = 4096\<rparr> =
     Inr (69632, \<lparr>alloc_ptr = 69657, alloc_bytes_remaining = 4071,
                  blocks = [(65536, 4096), (69632, 4096)], blocks_memory = 8192\<rparr>) \<and>
   run example_new [ReqAllocateAligned 18446744073709551615, ReqAllocateAligned 8]
     \<lparr>alloc_ptr = 69657, alloc_bytes_remaining = 4071,
      blocks = [(65536, 4096), (69632, 4096)], blocks_memory = 8192\<rparr> =
     Inr ([(69664, 18446744073709551615), (69664, 8)],
          \<lparr>alloc_ptr = 69672, alloc_bytes_remaining = 4056,
           blocks = [(65536, 4096), (69632, 4096)], blocks_memory = 8192\<rparr>) \<and>
   \<not> ranges_overlap (65536, 4096) (69632, 4096) \<and>
   \<not> ranges_overlap (69672, 4056) (69608, 24) \<and>
   \<not> in_range 69664 (69608, 24) \<and>
   \<not> ranges_overlap (69664, 8) (69608, 24)"
proof -
  let ?a = "\<lparr>alloc_ptr = 69608, alloc_bytes_remaining = 24,
             blocks = [(65536, 4096)], blocks_memory = 4096 :: size_t\<rparr>"
  let ?later = "[ReqAllocateAligned 18446744073709551615, ReqAllocateAligned 8]"
  let ?ps = "[(69664, 18446744073709551615), (69664, 8)] :: range list"
  have sm: "unat (request_bytes (ReqAllocateAligned 25)) \<le> 1024" by simp
  have nf: "\<not> fits (ReqAllocateAligned 25) ?a" by (simp add: alignment_slop_def)
  have sv: "serve example_new (ReqAllocateAligned 25) ?a =
     Inr (69632, \<lparr>alloc_ptr = 69657, alloc_bytes_remaining = 4071,
                  blocks = [(65536, 4096), (69632, 4096)], blocks_memory = 8192\<rparr>)"
    by (simp add: fill_step5)
  note t = small_request_new_block [OF new_ok_example fill_block sm nf sv fill_later]
  from t have 1: "\<not> ranges_overlap (65536, 4096) (69632, 4096)" by simp
  from t have 2: "\<not> ranges_overlap (69672, 4056) (69608, 24)" by simp
  from t have "\<And>i. i < length ?later \<Longrightarrow> \<not> in_range (fst (?ps ! i)) (69608, 24)"
    by simp
  from this [of 0] have 3: "\<not> in_range 69664 (69608, 24)" by simp
  from t have "\<And>i. i < length ?later \<Longrightarrow> no_wrap (?later ! i) \<Longrightarrow>
      \<not> ranges_overlap (?ps ! i) (69608, 24)"
    by simp
  from this [of 1] have 4: "\<not> ranges_overlap (69664, 8) (69608, 24)" by simp
  from 1 2 3 4 show ?thesis using new_ok_example fill_block sm nf sv fill_later by blast
qed

end
